theory Spec2Isabelle
  imports Complex_Main "HOL-Library.Log_Nat" "HOL-Library.Char_ord" "HOL-Library.List_Lexorder"
begin

section \<open>Column values\<close>

text \<open>
  The notebook works on pandas columns of dtype float64; the table of summary
  statistics it rescales holds such columns. A cell is modelled as a rational number,
  one of the two infinities, or NaN, which is also how pandas stores a null (missing)
  cell of a numeric column. A finite cell of a column is a rational that float64
  represents (\<open>is_float64\<close>). Every arithmetic operation computes the exact rational
  result and rounds it to the nearest float64, ties to the even significand, as
  IEEE 754 does; a result beyond the largest float64 becomes an infinity and a result
  too small becomes zero. Zero carries no sign. A bound given as a Python integer
  meets the column as the float64 of the same value.
\<close>

datatype float_val = Fin rat | PInf | NInf | NaN

fun notnull :: "float_val \<Rightarrow> bool" where
  "notnull NaN = False"
| "notnull _ = True"

definition inf_of_sign :: "rat \<Rightarrow> float_val" where
  "inf_of_sign s = (if s = 0 then NaN else if 0 < s then PInf else NInf)"

text \<open>Rounding a rational to the nearest integer, a tie to the even neighbour.\<close>

definition rhe :: "rat \<Rightarrow> int" where
  "rhe x =
     (let f = \<lfloor>x\<rfloor>; d = x - of_int f
      in if d < 1 / 2 then f else if 1 / 2 < d then f + 1 else if even f then f else f + 1)"

text \<open>
  The binary exponent of a non-zero rational \<open>r\<close> is the integer \<open>e\<close> with
  \<open>2 powi e \<le> \<bar>r\<bar> < 2 powi (e + 1)\<close>. The float64 values around \<open>r\<close> are the
  multiples of \<open>quantum r\<close>: 53 significant bits for a normal number, multiples of
  \<open>2 powi (- 1074)\<close> below the smallest normal number \<open>2 powi (- 1022)\<close>.
  \<open>nearest64 r\<close> is the multiple of \<open>quantum r\<close> nearest to \<open>r\<close>.
\<close>

definition float_exp :: "rat \<Rightarrow> int" where
  "float_exp r =
     (if 1 \<le> \<bar>r\<bar> then bitlen \<lfloor>\<bar>r\<bar>\<rfloor> - 1 else - bitlen (\<lceil>1 / \<bar>r\<bar>\<rceil> - 1))"

definition quantum :: "rat \<Rightarrow> rat" where
  "quantum r = 2 powi (max (float_exp r) (- 1022) - 52)"

definition nearest64 :: "rat \<Rightarrow> rat" where
  "nearest64 r = of_int (rhe (r / quantum r)) * quantum r"

definition round64 :: "rat \<Rightarrow> float_val" where
  "round64 r =
     (if r = 0 then Fin 0
      else if 2 powi 1024 \<le> \<bar>nearest64 r\<bar> then inf_of_sign (sgn r)
      else Fin (nearest64 r))"

definition is_float64 :: "rat \<Rightarrow> bool" where
  "is_float64 r \<longleftrightarrow> round64 r = Fin r"

fun fneg :: "float_val \<Rightarrow> float_val" where
  "fneg (Fin a) = Fin (- a)"
| "fneg PInf = NInf"
| "fneg NInf = PInf"
| "fneg NaN = NaN"

fun fadd :: "float_val \<Rightarrow> float_val \<Rightarrow> float_val" where
  "fadd NaN _ = NaN"
| "fadd _ NaN = NaN"
| "fadd (Fin a) (Fin b) = round64 (a + b)"
| "fadd PInf NInf = NaN"
| "fadd NInf PInf = NaN"
| "fadd PInf _ = PInf"
| "fadd _ PInf = PInf"
| "fadd NInf _ = NInf"
| "fadd _ NInf = NInf"

definition fsub :: "float_val \<Rightarrow> float_val \<Rightarrow> float_val" where
  "fsub u v = fadd u (fneg v)"

text \<open>The sign of a non-NaN value: \<open>-1\<close>, \<open>0\<close> or \<open>1\<close>.\<close>

fun fsgn :: "float_val \<Rightarrow> rat" where
  "fsgn (Fin a) = sgn a"
| "fsgn PInf = 1"
| "fsgn NInf = - 1"
| "fsgn NaN = 0"

fun fmul :: "float_val \<Rightarrow> float_val \<Rightarrow> float_val" where
  "fmul NaN _ = NaN"
| "fmul _ NaN = NaN"
| "fmul (Fin a) (Fin b) = round64 (a * b)"
| "fmul u v = inf_of_sign (fsgn u * fsgn v)"

text \<open>
  Division of columns never raises: a zero divisor gives NaN for a zero dividend and an
  infinity of the dividend's sign otherwise (the divisors formed by the notebook are
  differences, whose zero is positive).
\<close>

fun fdiv :: "float_val \<Rightarrow> float_val \<Rightarrow> float_val" where
  "fdiv NaN _ = NaN"
| "fdiv _ NaN = NaN"
| "fdiv (Fin a) (Fin b) = (if b = 0 then inf_of_sign (sgn a) else round64 (a / b))"
| "fdiv (Fin a) _ = Fin 0"
| "fdiv u (Fin b) = inf_of_sign (fsgn u * (if b < 0 then - 1 else 1))"
| "fdiv _ _ = NaN"

text \<open>Comparison \<open>\<le>\<close> of two cells; every comparison with NaN is false.\<close>

fun fle :: "float_val \<Rightarrow> float_val \<Rightarrow> bool" where
  "fle NaN _ = False"
| "fle _ NaN = False"
| "fle NInf _ = True"
| "fle _ PInf = True"
| "fle (Fin a) (Fin b) = (a \<le> b)"
| "fle _ _ = False"

definition fmin :: "float_val \<Rightarrow> float_val \<Rightarrow> float_val" where
  "fmin u v = (if fle u v then u else v)"

definition fmax :: "float_val \<Rightarrow> float_val \<Rightarrow> float_val" where
  "fmax u v = (if fle u v then v else u)"

section \<open>Column reductions\<close>

text \<open>
  The reductions \<open>x.min()\<close>, \<open>x.max()\<close>, \<open>x.count()\<close> and \<open>x.mean()\<close> of a
  column skip its null cells. The minimum, maximum and mean of a column without a
  non-null cell are NaN; the count is the number of non-null cells. The mean is the
  sum of the non-null cells, accumulated from the first cell to the last, divided by
  their count.
\<close>

definition series_min :: "float_val list \<Rightarrow> float_val" where
  "series_min x = (case filter notnull x of [] \<Rightarrow> NaN | v # vs \<Rightarrow> fold fmin vs v)"

definition series_max :: "float_val list \<Rightarrow> float_val" where
  "series_max x = (case filter notnull x of [] \<Rightarrow> NaN | v # vs \<Rightarrow> fold fmax vs v)"

definition series_count :: "float_val list \<Rightarrow> nat" where
  "series_count x = sum_list (map (\<lambda>v. if notnull v then 1 else 0) x)"

definition series_sum :: "float_val list \<Rightarrow> float_val" where
  "series_sum x = fold (\<lambda>v acc. fadd acc v) (filter notnull x) (Fin 0)"

definition series_mean :: "float_val list \<Rightarrow> float_val" where
  "series_mean x =
     (let n = series_count x
      in if n = 0 then NaN else fdiv (series_sum x) (Fin (of_nat n)))"

section \<open>Rescaling a column\<close>

text \<open>
  \<^verbatim>\<open>
  def rescale_to_range(a, b, x):
      return((((b - a) * (x - x.min())) / (x.max() - x.min())) + a)
  \<close>
  The scalars \<open>a\<close> and \<open>b\<close> and the reductions of \<open>x\<close> are broadcast over the column,
  so the expression is evaluated cell by cell.
\<close>

definition rescale_to_range :: "float_val \<Rightarrow> float_val \<Rightarrow> float_val list \<Rightarrow> float_val list" where
  "rescale_to_range a b x =
     map (\<lambda>v. fadd (fdiv (fmul (fsub b a) (fsub v (series_min x)))
                          (fsub (series_max x) (series_min x))) a) x"

text \<open>
  The same expression on a column of dtype int64 with Python integer bounds whose
  difference fits 64 bits: the two differences and the product are computed in int64,
  where an overflow wraps around; the product and the divisor are converted to
  float64 for the division, and \<open>a\<close> for the addition.
\<close>

definition wrap64 :: "int \<Rightarrow> int" where
  "wrap64 n = (n + 2 ^ 63) mod 2 ^ 64 - 2 ^ 63"

definition rescale_to_range_int64 :: "int \<Rightarrow> int \<Rightarrow> int list \<Rightarrow> float_val list" where
  "rescale_to_range_int64 a b x =
     (case x of
        [] \<Rightarrow> []
      | y # ys \<Rightarrow>
          let mn = fold min ys y; mx = fold max ys y
          in map (\<lambda>v. fadd (fdiv (round64 (of_int (wrap64 ((b - a) * wrap64 (v - mn)))))
                                  (round64 (of_int (wrap64 (mx - mn)))))
                            (round64 (of_int a))) x)"

section \<open>Grouping and summary statistics\<close>

text \<open>
  \<^verbatim>\<open>
  def get_stats(group):
      return {'min': group.min(), 'max': group.max(), 'count': group.count(), 'mean': group.mean()}
  \<close>
\<close>

record stats =
  min_stat :: float_val
  max_stat :: float_val
  count_stat :: nat
  mean_stat :: float_val

definition get_stats :: "float_val list \<Rightarrow> stats" where
  "get_stats g =
     \<lparr>min_stat = series_min g, max_stat = series_max g,
      count_stat = series_count g, mean_stat = series_mean g\<rparr>"

text \<open>
  A row of the data set, reduced to the two columns the aggregation reads: the cell
  of column \<open>Country\<close> (\<open>None\<close> for a null cell) and the cell of column \<open>Overall\<close>.
  A row is identified by its position in the table.
\<close>

type_synonym 'k row = "'k option \<times> float_val"

text \<open>
  \<open>groupby\<close> forms one group for each distinct non-null key, in ascending order of the
  keys; a group holds the positions of the rows that carry its key. Rows whose key is
  null are left out of every group.
\<close>

definition group_keys :: "'k::linorder option list \<Rightarrow> 'k list" where
  "group_keys ks = sort (remdups (List.map_filter id ks))"

definition group_rows :: "'k option list \<Rightarrow> 'k \<Rightarrow> nat list" where
  "group_rows ks k = filter (\<lambda>i. ks ! i = Some k) [0..<length ks]"

definition groupby :: "'k::linorder option list \<Rightarrow> ('k \<times> nat list) list" where
  "groupby ks = map (\<lambda>k. (k, group_rows ks k)) (group_keys ks)"

text \<open>
  \<^verbatim>\<open>
  dataset_country = dataset['Overall'].groupby(dataset['Country'])
  stats_country = dataset_country.apply(get_stats).unstack()
  \<close>
\<close>

definition dataset_country :: "('k::linorder) row list \<Rightarrow> ('k \<times> nat list) list" where
  "dataset_country dataset = groupby (map fst dataset)"

text \<open>
  The summary table has one row per group. When there is no group at all, \<open>unstack\<close>
  has nothing to pivot and raises.
\<close>

datatype py_error = ValueError

definition stats_country :: "('k::linorder) row list \<Rightarrow> py_error + ('k \<times> stats) list" where
  "stats_country dataset =
     (case dataset_country dataset of
        [] \<Rightarrow> Inl ValueError
      | gs \<Rightarrow> Inr (map (\<lambda>(k, rows). (k, get_stats (map (\<lambda>i. snd (dataset ! i)) rows))) gs))"

section \<open>Rounding to the nearest integer\<close>

lemma rhe_of_int: "rhe (of_int n) = n"
  by (simp add: rhe_def)

lemma rhe_cases:
  "(rhe x = \<lfloor>x\<rfloor> \<and> x - of_int \<lfloor>x\<rfloor> \<le> 1 / 2) \<or>
   (rhe x = \<lfloor>x\<rfloor> + 1 \<and> 1 / 2 \<le> x - of_int \<lfloor>x\<rfloor>)"
proof -
  define d where "d = x - of_int \<lfloor>x\<rfloor>"
  have r: "rhe x = (if d < 1 / 2 then \<lfloor>x\<rfloor> else if 1 / 2 < d then \<lfloor>x\<rfloor> + 1
                    else if even \<lfloor>x\<rfloor> then \<lfloor>x\<rfloor> else \<lfloor>x\<rfloor> + 1)"
    unfolding rhe_def Let_def d_def ..
  consider "d < 1 / 2" | "1 / 2 < d" | "d = 1 / 2"
    by linarith
  then have "(rhe x = \<lfloor>x\<rfloor> \<and> d \<le> 1 / 2) \<or> (rhe x = \<lfloor>x\<rfloor> + 1 \<and> 1 / 2 \<le> d)"
  proof cases
    case 1
    then show ?thesis unfolding r by simp
  next
    case 2
    then show ?thesis unfolding r by simp
  next
    case 3
    then show ?thesis unfolding r by simp
  qed
  then show ?thesis
    unfolding d_def .
qed

lemma rhe_ge_floor: "\<lfloor>x\<rfloor> \<le> rhe x"
  using rhe_cases [of x] by auto

lemma rhe_le_floor_Suc: "rhe x \<le> \<lfloor>x\<rfloor> + 1"
  using rhe_cases [of x] by auto

lemma rhe_mono:
  assumes "x \<le> y"
  shows "rhe x \<le> rhe y"
proof (cases "\<lfloor>x\<rfloor> = \<lfloor>y\<rfloor>")
  case False
  then have "\<lfloor>x\<rfloor> < \<lfloor>y\<rfloor>"
    using floor_mono [OF assms] by simp
  then have "rhe x \<le> \<lfloor>y\<rfloor>"
    using rhe_le_floor_Suc [of x] by simp
  then show ?thesis
    using rhe_ge_floor [of y] by simp
next
  case True
  have d: "x - of_int \<lfloor>x\<rfloor> \<le> y - of_int \<lfloor>y\<rfloor>"
    using assms True by simp
  show ?thesis
    using d True by (auto simp: rhe_def Let_def)
qed

lemma rhe_error: "\<bar>of_int (rhe x) - x\<bar> \<le> 1 / 2"
proof -
  have "of_int \<lfloor>x\<rfloor> \<le> x" and "x < of_int \<lfloor>x\<rfloor> + 1"
    by linarith+
  then show ?thesis
    using rhe_cases [of x] by auto
qed

lemma rhe_minus: "rhe (- x) = - rhe x"
proof (cases "x = of_int \<lfloor>x\<rfloor>")
  case True
  then obtain n where "x = of_int n" ..
  then have "- x = of_int (- n)"
    by simp
  then show ?thesis
    using rhe_of_int [of "- n"] rhe_of_int [of n] \<open>x = of_int n\<close> by simp
next
  case False
  have lt: "of_int \<lfloor>x\<rfloor> < x"
  proof (rule le_neq_trans)
    show "of_int \<lfloor>x\<rfloor> \<le> x"
      by (rule of_int_floor_le)
    show "of_int \<lfloor>x\<rfloor> \<noteq> x"
      using False by (rule not_sym)
  qed
  have fl: "\<lfloor>- x\<rfloor> = - \<lfloor>x\<rfloor> - 1"
  proof (rule floor_unique)
    show "of_int (- \<lfloor>x\<rfloor> - 1) \<le> - x"
      using floor_correct [of x] by simp
    show "- x < of_int (- \<lfloor>x\<rfloor> - 1) + 1"
      using lt by simp
  qed
  have ev: "even (- \<lfloor>x\<rfloor> - 1) \<longleftrightarrow> odd \<lfloor>x\<rfloor>"
    by simp
  show ?thesis
    unfolding rhe_def Let_def fl ev
    by (auto simp: algebra_simps)
qed

section \<open>The binary exponent\<close>

lemma two_powi_pos: "0 < (2::rat) powi k"
  by simp

lemma two_powi_add: "(2::rat) powi (j + k) = 2 powi j * 2 powi k"
  by (simp add: power_int_add)

lemma two_powi_mono: "j \<le> k \<Longrightarrow> (2::rat) powi j \<le> 2 powi k"
  by (rule power_int_increasing) simp_all

lemma two_powi_less_cancel:
  assumes "(2::rat) powi j < 2 powi k"
  shows "j < k"
proof (rule ccontr)
  assume "\<not> j < k"
  then have "(2::rat) powi k \<le> 2 powi j"
    by (intro two_powi_mono) simp
  with assms show False by simp
qed

lemma float_exp_bounds:
  assumes "r \<noteq> 0"
  shows "2 powi float_exp r \<le> \<bar>r\<bar>" and "\<bar>r\<bar> < 2 powi (float_exp r + 1)"
proof -
  have "2 powi float_exp r \<le> \<bar>r\<bar> \<and> \<bar>r\<bar> < 2 powi (float_exp r + 1)"
  proof (cases "1 \<le> \<bar>r\<bar>")
    case True
    define n where "n = \<lfloor>\<bar>r\<bar>\<rfloor>"
    have n1: "1 \<le> n"
      using True by (simp add: n_def le_floor_iff)
    then have b: "2 ^ nat (bitlen n - 1) \<le> n" "n < 2 ^ nat (bitlen n)"
      using bitlen_bounds [of n] by simp_all
    have bl: "1 \<le> bitlen n"
      using n1 bitlen_eq_zero_iff [of n] bitlen_nonneg [of n] by linarith
    have e: "float_exp r = bitlen n - 1"
      using True by (simp add: float_exp_def n_def)
    have "(2::rat) powi (bitlen n - 1) = of_int (2 ^ nat (bitlen n - 1))"
      using bl by (simp add: power_int_nonneg_exp)
    also have "\<dots> \<le> of_int n"
      using b(1) by (simp only: of_int_le_iff)
    also have "\<dots> \<le> \<bar>r\<bar>"
      by (simp add: n_def)
    finally have lo: "2 powi (bitlen n - 1) \<le> \<bar>r\<bar>" .
    have n1': "n + 1 \<le> 2 ^ nat (bitlen n)"
      using b(2) by simp
    have "\<bar>r\<bar> < of_int \<lfloor>\<bar>r\<bar>\<rfloor> + 1"
      by linarith
    then have "\<bar>r\<bar> < of_int (n + 1)"
      by (simp add: n_def)
    also have "(of_int (n + 1) :: rat) \<le> of_int (2 ^ nat (bitlen n))"
      using n1' by (simp only: of_int_le_iff)
    also have "\<dots> = 2 powi (bitlen n)"
      using bl by (simp add: power_int_nonneg_exp)
    finally have hi: "\<bar>r\<bar> < 2 powi (bitlen n)" .
    show ?thesis
      using lo hi by (simp add: e)
  next
    case False
    define t where "t = 1 / \<bar>r\<bar>"
    define m where "m = \<lceil>t\<rceil>"
    define k where "k = bitlen (m - 1)"
    have r0: "0 < \<bar>r\<bar>"
      using assms by simp
    have t1: "1 < t"
      using False r0 by (simp add: t_def)
    then have "1 < m"
      by (simp add: m_def less_ceiling_iff)
    then have m2: "2 \<le> m"
      by simp
    then have b: "2 ^ nat (k - 1) \<le> m - 1" "m - 1 < 2 ^ nat k"
      using bitlen_bounds [of "m - 1"] by (simp_all add: k_def)
    have k1: "1 \<le> k"
      using m2 bitlen_eq_zero_iff [of "m - 1"] bitlen_nonneg [of "m - 1"]
      unfolding k_def by linarith
    have e: "float_exp r = - k"
      using False by (simp add: float_exp_def k_def m_def t_def)
    have mk: "m \<le> 2 ^ nat k"
      using b(2) by simp
    have pk: "(2::rat) powi k = of_int (2 ^ nat k)"
      using k1 by (simp add: power_int_nonneg_exp)
    have "t \<le> of_int m"
      by (simp add: m_def)
    also have "(of_int m :: rat) \<le> of_int (2 ^ nat k)"
      using mk by (simp only: of_int_le_iff)
    also have "\<dots> = 2 powi k"
      by (simp only: pk)
    finally have "t \<le> 2 powi k" .
    then have "1 \<le> 2 powi k * \<bar>r\<bar>"
      using r0 by (simp add: t_def field_simps)
    then have lo: "2 powi (- k) \<le> \<bar>r\<bar>"
      by (simp add: power_int_minus field_simps)
    have "(2::rat) powi (k - 1) = of_int (2 ^ nat (k - 1))"
      using k1 by (simp add: power_int_nonneg_exp)
    also have "\<dots> \<le> of_int (m - 1)"
      using b(1) by (simp only: of_int_le_iff)
    also have "\<dots> < t"
      using ceiling_correct [of t] by (simp add: m_def)
    finally have "2 powi (k - 1) < t" .
    then have "\<bar>r\<bar> * 2 powi (k - 1) < 1"
      using r0 by (simp add: t_def field_simps)
    then have "\<bar>r\<bar> < 1 / 2 powi (k - 1)"
      using two_powi_pos [of "k - 1"] by (simp only: pos_less_divide_eq)
    also have "1 / (2::rat) powi (k - 1) = 2 powi (- k + 1)"
      using power_int_minus_divide [of "2::rat" "k - 1"] by simp
    finally have hi: "\<bar>r\<bar> < 2 powi (- k + 1)" .
    show ?thesis
      using lo hi by (simp add: e)
  qed
  then show "2 powi float_exp r \<le> \<bar>r\<bar>" and "\<bar>r\<bar> < 2 powi (float_exp r + 1)"
    by simp_all
qed

lemma float_exp_unique:
  assumes "2 powi e \<le> \<bar>r\<bar>" and "\<bar>r\<bar> < 2 powi (e + 1)"
  shows "float_exp r = e"
proof -
  have "r \<noteq> 0"
  proof
    assume "r = 0"
    then have "(2::rat) powi e \<le> 0"
      using assms(1) by simp
    moreover have "0 < (2::rat) powi e"
      by simp
    ultimately show False
      by linarith
  qed
  note b = float_exp_bounds [OF this]
  have "2 powi e < (2::rat) powi (float_exp r + 1)"
    using assms(1) b(2) by simp
  then have 1: "e < float_exp r + 1"
    by (rule two_powi_less_cancel)
  have "(2::rat) powi float_exp r < 2 powi (e + 1)"
    using assms(2) b(1) by simp
  then have 2: "float_exp r < e + 1"
    by (rule two_powi_less_cancel)
  show ?thesis
    using 1 2 by simp
qed

lemma float_exp_mono:
  assumes "r \<noteq> 0" and "\<bar>r\<bar> \<le> \<bar>s\<bar>"
  shows "float_exp r \<le> float_exp s"
proof -
  have "s \<noteq> 0"
    using assms by auto
  have "(2::rat) powi float_exp r \<le> \<bar>r\<bar>"
    using float_exp_bounds(1) [OF assms(1)] .
  also have "\<dots> \<le> \<bar>s\<bar>"
    by (rule assms(2))
  also have "\<dots> < 2 powi (float_exp s + 1)"
    using float_exp_bounds(2) [OF \<open>s \<noteq> 0\<close>] .
  finally have "float_exp r < float_exp s + 1"
    by (rule two_powi_less_cancel)
  then show ?thesis by simp
qed

lemma float_exp_minus: "float_exp (- r) = float_exp r"
  by (simp add: float_exp_def)

lemma quantum_minus: "quantum (- r) = quantum r"
  by (simp add: quantum_def float_exp_minus)

lemma quantum_pos: "0 < quantum r"
  by (simp add: quantum_def)

lemma nearest64_minus: "nearest64 (- r) = - nearest64 r"
  using rhe_minus [of "r / quantum r"] by (simp add: nearest64_def quantum_minus)

lemma nearest64_zero: "nearest64 0 = 0"
  using rhe_of_int [of 0] by (simp add: nearest64_def)

section \<open>The nearest float64\<close>

lemma two_powi_quot: "(2::rat) powi j / 2 powi k = 2 powi (j - k)"
  by (simp add: power_int_diff)

lemma two_powi_of_int: "(of_int (2 ^ k) :: rat) = 2 powi (int k)"
  by simp

lemma two_powi_scale:
  assumes "j - k = int n"
  shows "(2::rat) powi j = of_int (2 ^ n) * 2 powi k"
proof -
  have "(2::rat) powi j = 2 powi (int n + k)"
    using assms by (simp add: algebra_simps)
  also have "\<dots> = 2 powi (int n) * 2 powi k"
    by (rule two_powi_add)
  also have "(2::rat) powi (int n) = of_int (2 ^ n)"
    by simp
  finally show ?thesis .
qed

lemma two_powi_scale_div:
  assumes "j - k = int n"
  shows "(2::rat) powi j / 2 powi k = of_int (2 ^ n)"
  using two_powi_scale [OF assms] by simp

lemma rhe_nearest:
  assumes "\<bar>x - of_int n\<bar> < 1 / 2"
  shows "rhe x = n"
proof -
  have "\<bar>(of_int (rhe x) :: rat) - of_int n\<bar> < 1"
    using assms rhe_error [of x] by linarith
  then have "\<bar>(of_int (rhe x - n) :: rat)\<bar> < of_int 1"
    by simp
  then have "\<bar>rhe x - n\<bar> < 1"
    by (simp only: of_int_abs [symmetric] of_int_less_iff)
  then show ?thesis
    by simp
qed

lemma rhe_tie:
  assumes "\<bar>x - of_int n\<bar> = 1 / 2" and "even n"
  shows "rhe x = n"
proof -
  consider "x = of_int n + 1 / 2" | "x = of_int n - 1 / 2"
    using assms(1) by (auto simp: abs_if split: if_splits)
  then show ?thesis
  proof cases
    case 1
    have "\<lfloor>x\<rfloor> = n"
      by (rule floor_unique) (simp_all add: 1)
    then show ?thesis
      using rhe_cases [of x] assms(2) by (auto simp: rhe_def Let_def 1)
  next
    case 2
    have f: "\<lfloor>x\<rfloor> = n - 1"
      by (rule floor_unique) (simp_all add: 2)
    have "odd (n - 1)"
      using assms(2) by simp
    then show ?thesis
      unfolding rhe_def Let_def f by (simp add: 2)
  qed
qed

lemma rhe_eval:
  assumes "\<bar>x - of_int n\<bar> < 1 / 2 \<or> (\<bar>x - of_int n\<bar> = 1 / 2 \<and> even n)"
  shows "rhe x = n"
  using assms rhe_nearest [of x n] rhe_tie [of x n] by blast

lemma nearest64_normal_bounds:
  assumes "0 < r" and "- 1022 \<le> float_exp r"
  shows "2 powi float_exp r \<le> nearest64 r" and "nearest64 r \<le> 2 powi (float_exp r + 1)"
proof -
  define e where "e = float_exp r"
  define q :: rat where "q = 2 powi (e - 52)"
  have q: "quantum r = q"
    using assms(2) by (simp add: quantum_def e_def q_def max_def)
  have q0: "0 < q"
    by (simp add: q_def)
  have b: "2 powi e \<le> r" "r < 2 powi (e + 1)"
    using float_exp_bounds [of r] assms(1) by (simp_all add: e_def)
  have "(2::rat) powi e / q \<le> r / q"
    using b(1) q0 by (simp add: divide_right_mono)
  moreover have "(2::rat) powi e / q = of_int (2 ^ 52)"
    unfolding q_def by (rule two_powi_scale_div) simp
  ultimately have "(of_int (2 ^ 52) :: rat) \<le> r / q"
    by (simp only:)
  then have "rhe (of_int (2 ^ 52)) \<le> rhe (r / q)"
    by (rule rhe_mono)
  then have n_lo: "2 ^ 52 \<le> rhe (r / q)"
    by (simp only: rhe_of_int)
  have "r / q \<le> (2::rat) powi (e + 1) / q"
    using b(2) q0 by (simp add: divide_right_mono)
  moreover have "(2::rat) powi (e + 1) / q = of_int (2 ^ 53)"
    unfolding q_def by (rule two_powi_scale_div) simp
  ultimately have "r / q \<le> (of_int (2 ^ 53) :: rat)"
    by (simp only:)
  then have "rhe (r / q) \<le> rhe (of_int (2 ^ 53))"
    by (rule rhe_mono)
  then have n_hi: "rhe (r / q) \<le> 2 ^ 53"
    by (simp only: rhe_of_int)
  have "(2::rat) powi e = of_int (2 ^ 52) * q"
    unfolding q_def by (rule two_powi_scale) simp
  also have "\<dots> \<le> of_int (rhe (r / q)) * q"
    using n_lo q0 by (intro mult_right_mono) (simp_all only: of_int_le_iff less_imp_le)
  finally show "2 powi float_exp r \<le> nearest64 r"
    by (simp add: nearest64_def q e_def)
  have "of_int (rhe (r / q)) * q \<le> of_int (2 ^ 53) * q"
    using n_hi q0 by (intro mult_right_mono) (simp_all only: of_int_le_iff less_imp_le)
  also have "\<dots> = 2 powi (e + 1)"
    unfolding q_def by (rule two_powi_scale [symmetric]) simp
  finally show "nearest64 r \<le> 2 powi (float_exp r + 1)"
    by (simp add: nearest64_def q e_def)
qed

lemma nearest64_subnormal_bounds:
  assumes "0 < r" and "float_exp r < - 1022"
  shows "0 \<le> nearest64 r" and "nearest64 r \<le> 2 powi (- 1022)"
proof -
  define j :: int where "j = - 1022"
  define q :: rat where "q = 2 powi (j - 52)"
  have "max (float_exp r) (- 1022) = j"
    using assms(2) by (simp add: j_def)
  then have q: "quantum r = q"
    by (simp only: quantum_def q_def)
  have q0: "0 < q"
    unfolding q_def by (rule two_powi_pos)
  have "r < 2 powi (float_exp r + 1)"
    using float_exp_bounds(2) [of r] assms(1) by simp
  also have "\<dots> \<le> 2 powi j"
    using assms(2) by (intro two_powi_mono) (simp add: j_def)
  finally have "r \<le> 2 powi j"
    by (rule less_imp_le)
  then have "r / q \<le> (2::rat) powi j / q"
    using q0 by (intro divide_right_mono) (simp_all only: less_imp_le)
  moreover have "(2::rat) powi j / q = of_int (2 ^ 52)"
    unfolding q_def by (rule two_powi_scale_div) simp
  ultimately have "r / q \<le> (of_int (2 ^ 52) :: rat)"
    by (simp only:)
  then have "rhe (r / q) \<le> rhe (of_int (2 ^ 52))"
    by (rule rhe_mono)
  then have n_hi: "rhe (r / q) \<le> 2 ^ 52"
    by (simp only: rhe_of_int)
  have "of_int 0 \<le> r / q"
    using assms(1) q0 by simp
  then have "rhe (of_int 0) \<le> rhe (r / q)"
    by (rule rhe_mono)
  then have n_lo: "0 \<le> rhe (r / q)"
    by (simp only: rhe_of_int)
  have "0 \<le> of_int (rhe (r / q)) * q"
    using n_lo q0 by simp
  then show "0 \<le> nearest64 r"
    by (simp only: nearest64_def q)
  have "of_int (rhe (r / q)) * q \<le> of_int (2 ^ 52) * q"
    using n_hi q0 by (intro mult_right_mono) (simp_all only: of_int_le_iff less_imp_le)
  also have "\<dots> = 2 powi j"
    unfolding q_def by (rule two_powi_scale [symmetric]) simp
  finally have "of_int (rhe (r / q)) * q \<le> 2 powi j" .
  then show "nearest64 r \<le> 2 powi (- 1022)"
    by (simp only: nearest64_def q j_def)
qed

lemma nearest64_nonneg:
  assumes "0 \<le> r"
  shows "0 \<le> nearest64 r"
proof (cases "r = 0")
  case True
  then show ?thesis by (simp add: nearest64_zero)
next
  case False
  then have r: "0 < r"
    using assms by simp
  show ?thesis
  proof (cases "- 1022 \<le> float_exp r")
    case True
    have "0 < (2::rat) powi float_exp r"
      by simp
    then show ?thesis
      using nearest64_normal_bounds(1) [OF r True] by linarith
  next
    case False
    then show ?thesis
      using nearest64_subnormal_bounds(1) [OF r] by simp
  qed
qed

lemma nearest64_upper:
  assumes "0 < r"
  shows "nearest64 r \<le> 2 powi (max (float_exp r) (- 1022) + 1)"
proof (cases "- 1022 \<le> float_exp r")
  case True
  then show ?thesis
    using nearest64_normal_bounds(2) [OF assms True] by (simp add: max_def)
next
  case False
  then have "nearest64 r \<le> 2 powi (- 1022)"
    using nearest64_subnormal_bounds(2) [OF assms] by simp
  also have "\<dots> \<le> 2 powi (- 1022 + 1)"
    by (intro two_powi_mono) simp
  finally show ?thesis
    using False by (simp add: max_def)
qed

lemma nearest64_mono_pos:
  assumes "0 < r" and "r \<le> s"
  shows "nearest64 r \<le> nearest64 s"
proof -
  have s: "0 < s"
    using assms by simp
  define Er where "Er = max (float_exp r) (- 1022)"
  define Es where "Es = max (float_exp s) (- 1022)"
  have "float_exp r \<le> float_exp s"
    using assms by (intro float_exp_mono) simp_all
  then have le: "Er \<le> Es"
    by (simp add: Er_def Es_def)
  show ?thesis
  proof (cases "Er = Es")
    case True
    then have q: "quantum r = quantum s"
      by (simp add: quantum_def Er_def Es_def)
    have "r / quantum s \<le> s / quantum s"
      using assms(2) quantum_pos [of s] by (simp add: divide_right_mono)
    then have "rhe (r / quantum s) \<le> rhe (s / quantum s)"
      by (rule rhe_mono)
    then have "(of_int (rhe (r / quantum s)) :: rat) \<le> of_int (rhe (s / quantum s))"
      by (simp only: of_int_le_iff)
    then show ?thesis
      using quantum_pos [of s] by (simp add: nearest64_def q mult_right_mono)
  next
    case False
    then have lt: "Er + 1 \<le> Es"
      using le by simp
    then have normal: "- 1022 \<le> float_exp s" and Es: "Es = float_exp s"
      by (simp_all add: Er_def Es_def max_def split: if_splits)
    have "nearest64 r \<le> 2 powi (Er + 1)"
      using nearest64_upper [OF assms(1)] by (simp add: Er_def)
    also have "\<dots> \<le> 2 powi Es"
      using lt by (rule two_powi_mono)
    also have "\<dots> \<le> nearest64 s"
      using nearest64_normal_bounds(1) [OF s normal] by (simp add: Es)
    finally show ?thesis .
  qed
qed

lemma nearest64_mono:
  assumes "r \<le> s"
  shows "nearest64 r \<le> nearest64 s"
proof -
  consider "0 < r" | "r \<le> 0" "0 \<le> s" | "s < 0"
    using assms by linarith
  then show ?thesis
  proof cases
    case 1
    then show ?thesis
      using assms by (rule nearest64_mono_pos)
  next
    case 2
    have "0 \<le> nearest64 (- r)"
      using 2(1) by (intro nearest64_nonneg) simp
    then have "nearest64 r \<le> 0"
      by (simp add: nearest64_minus)
    also have "0 \<le> nearest64 s"
      using 2(2) by (rule nearest64_nonneg)
    finally show ?thesis .
  next
    case 3
    then have "nearest64 (- s) \<le> nearest64 (- r)"
      using assms by (intro nearest64_mono_pos) simp_all
    then show ?thesis
      by (simp add: nearest64_minus)
  qed
qed

section \<open>Rounding to float64\<close>

lemma round64_zero: "round64 0 = Fin 0"
  by (simp add: round64_def)

lemma round64_pos:
  assumes "0 < r"
  shows "round64 r = (if 2 powi 1024 \<le> nearest64 r then PInf else Fin (nearest64 r))"
proof -
  have "0 \<le> nearest64 r"
    using assms by (intro nearest64_nonneg) simp
  then show ?thesis
    using assms by (simp add: round64_def inf_of_sign_def)
qed

lemma round64_neg:
  assumes "r < 0"
  shows "round64 r = (if nearest64 r \<le> - (2 powi 1024) then NInf else Fin (nearest64 r))"
proof -
  have "0 \<le> nearest64 (- r)"
    using assms by (intro nearest64_nonneg) simp
  then have "nearest64 r \<le> 0"
    by (simp add: nearest64_minus)
  then have "\<bar>nearest64 r\<bar> = - nearest64 r"
    by simp
  then show ?thesis
    using assms by (auto simp: round64_def inf_of_sign_def)
qed

lemma round64_not_NaN: "round64 r \<noteq> NaN"
proof -
  consider "r = 0" | "0 < r" | "r < 0"
    by linarith
  then show ?thesis
    by cases (simp_all add: round64_zero round64_pos round64_neg)
qed

lemma round64_mono:
  assumes "r \<le> s"
  shows "fle (round64 r) (round64 s)"
proof -
  have m: "nearest64 r \<le> nearest64 s"
    using assms by (rule nearest64_mono)
  have p: "0 < (2::rat) powi 1024"
    by simp
  consider "r < 0" "s < 0" | "r < 0" "s = 0" | "r < 0" "0 < s" | "r = 0" "s = 0"
    | "r = 0" "0 < s" | "0 < r" "0 < s"
    using assms by linarith
  then show ?thesis
  proof cases
    case 1
    then show ?thesis
      using m by (simp add: round64_neg)
  next
    case 2
    have "nearest64 r \<le> 0"
      using m 2(2) by (simp add: nearest64_zero)
    then show ?thesis
      using 2 by (simp add: round64_neg round64_zero)
  next
    case 3
    have "nearest64 r \<le> nearest64 0" "nearest64 0 \<le> nearest64 s"
      using 3 by (intro nearest64_mono, simp)+
    then show ?thesis
      using 3 m by (simp add: round64_neg round64_pos nearest64_zero)
  next
    case 4
    then show ?thesis
      by (simp add: round64_zero)
  next
    case 5
    have "0 \<le> nearest64 s"
      using 5(2) by (intro nearest64_nonneg) simp
    then show ?thesis
      using 5 by (simp add: round64_pos round64_zero)
  next
    case 6
    then show ?thesis
      using m by (simp add: round64_pos)
  qed
qed

lemma round64_nonneg:
  assumes "0 \<le> r"
  shows "round64 r = PInf \<or> (\<exists>v\<ge>0. round64 r = Fin v)"
proof (cases "r = 0")
  case True
  then show ?thesis by (simp add: round64_zero)
next
  case False
  then have r: "0 < r"
    using assms by simp
  have "0 \<le> nearest64 r"
    using assms by (rule nearest64_nonneg)
  then show ?thesis
    by (simp add: round64_pos [OF r])
qed

lemma round64_overflow:
  assumes "2 powi 1024 \<le> r"
  shows "round64 r = PInf"
proof -
  have p: "0 < (2::rat) powi 1024"
    by simp
  then have r: "0 < r"
    using assms by linarith
  have "float_exp (2 powi 1024) = 1024"
    by (rule float_exp_unique) simp_all
  moreover have "float_exp (2 powi 1024) \<le> float_exp r"
    using assms r by (intro float_exp_mono) simp_all
  ultimately have e: "1024 \<le> float_exp r"
    by simp
  have "(2::rat) powi 1024 \<le> 2 powi float_exp r"
    using e by (rule two_powi_mono)
  also have "\<dots> \<le> nearest64 r"
    using e by (intro nearest64_normal_bounds(1) [OF r]) simp
  finally show ?thesis
    by (simp add: round64_pos [OF r])
qed

lemma round64_eval:
  assumes "2 powi e \<le> \<bar>r\<bar>" and "\<bar>r\<bar> < 2 powi (e + 1)" and "e \<le> 1022"
    and "\<bar>r / 2 powi (max e (- 1022) - 52) - of_int n\<bar> < 1 / 2 \<or>
         (\<bar>r / 2 powi (max e (- 1022) - 52) - of_int n\<bar> = 1 / 2 \<and> even n)"
  shows "round64 r = Fin (of_int n * 2 powi (max e (- 1022) - 52))"
proof -
  have e: "float_exp r = e"
    using assms(1,2) by (rule float_exp_unique)
  have r0: "r \<noteq> 0"
    using assms(1) two_powi_pos [of e] by (cases "r = 0") (simp, linarith)
  have v: "nearest64 r = of_int n * 2 powi (max e (- 1022) - 52)"
    using rhe_eval [OF assms(4)] by (simp add: nearest64_def quantum_def e)
  have "\<bar>nearest64 r\<bar> \<le> 2 powi (max (float_exp r) (- 1022) + 1)"
  proof (cases "0 < r")
    case True
    then have "0 \<le> nearest64 r"
      by (intro nearest64_nonneg) simp
    then show ?thesis
      using nearest64_upper [OF True] by simp
  next
    case False
    then have neg: "0 < - r"
      using r0 by simp
    then have "0 \<le> nearest64 (- r)"
      by (intro nearest64_nonneg) simp
    then show ?thesis
      using nearest64_upper [OF neg] by (simp add: nearest64_minus float_exp_minus)
  qed
  also have "\<dots> \<le> 2 powi 1023"
    using assms(3) by (intro two_powi_mono) (simp add: e)
  also have "\<dots> < 2 powi 1024"
    by (intro power_int_strict_increasing) simp_all
  finally have "\<not> 2 powi 1024 \<le> \<bar>nearest64 r\<bar>"
    by simp
  then show ?thesis
    using r0 by (simp add: round64_def v [symmetric])
qed

section \<open>Representable numbers\<close>

lemma is_float64_zero: "is_float64 0"
  by (simp add: is_float64_def round64_zero)

lemma float64_grid:
  assumes "is_float64 x"
  shows "\<exists>m::int. x = of_int m * 2 powi (- 1074)"
proof (cases "x = 0")
  case True
  then have "x = of_int 0 * 2 powi (- 1074)"
    by simp
  then show ?thesis ..
next
  case False
  then have "x = nearest64 x"
    using assms by (auto simp: is_float64_def round64_def inf_of_sign_def split: if_splits)
  define E where "E = max (float_exp x) (- 1022)"
  have E: "0 \<le> E + 1022"
    by (simp add: E_def)
  have "(2::rat) powi (E - 52) = 2 powi (E + 1022) * 2 powi (- 1074)"
    using two_powi_add [of "E + 1022" "- 1074"] by simp
  also have "(2::rat) powi (E + 1022) = of_int (2 ^ nat (E + 1022))"
    using E by (simp add: power_int_nonneg_exp)
  finally have "quantum x = of_int (2 ^ nat (E + 1022)) * 2 powi (- 1074)"
    by (simp add: quantum_def E_def)
  then have "nearest64 x =
      of_int (rhe (x / quantum x) * 2 ^ nat (E + 1022)) * 2 powi (- 1074)"
    by (simp add: nearest64_def)
  then show ?thesis
    using \<open>x = nearest64 x\<close> by metis
qed

lemma nearest64_tiny: "nearest64 (2 powi (- 1074)) = 2 powi (- 1074)"
proof -
  define j :: int where "j = - 1074"
  define t :: rat where "t = 2 powi j"
  have t0: "0 < t"
    unfolding t_def by (rule two_powi_pos)
  have "t < 2 powi (j + 1)"
    unfolding t_def by (rule power_int_strict_increasing) simp_all
  then have "float_exp t = j"
    using t0 by (intro float_exp_unique) (simp_all add: t_def)
  then have "max (float_exp t) (- 1022) - 52 = j"
    by (simp add: j_def)
  then have q: "quantum t = t"
    by (simp only: quantum_def t_def)
  have "t / t = of_int 1"
    using t0 by simp
  then have "rhe (t / t) = 1"
    by (simp only: rhe_of_int)
  then have "nearest64 t = t"
    by (simp add: nearest64_def q)
  then show ?thesis
    by (simp only: t_def j_def)
qed

lemma float64_diff_pos:
  assumes "is_float64 x" and "is_float64 y" and "x < y"
  shows "round64 (y - x) = PInf \<or> (\<exists>d>0. round64 (y - x) = Fin d)"
proof -
  obtain m n :: int where x: "x = of_int m * 2 powi (- 1074)"
    and y: "y = of_int n * 2 powi (- 1074)"
    using float64_grid [OF assms(1)] float64_grid [OF assms(2)] by blast
  have t: "0 < (2::rat) powi (- 1074)"
    by simp
  have "(of_int m :: rat) < of_int n"
    using assms(3) t unfolding x y by (simp only: mult_less_cancel_right_pos)
  then have "m + 1 \<le> n"
    by simp
  then have "1 \<le> n - m"
    by simp
  then have "(of_int 1 :: rat) \<le> of_int (n - m)"
    by (simp only: of_int_le_iff)
  then have "1 * 2 powi (- 1074) \<le> (of_int (n - m) :: rat) * 2 powi (- 1074)"
    using t by (intro mult_right_mono) simp_all
  then have ge: "2 powi (- 1074) \<le> y - x"
    by (simp add: x y algebra_simps)
  have "nearest64 (2 powi (- 1074)) \<le> nearest64 (y - x)"
    using ge by (rule nearest64_mono)
  then have "2 powi (- 1074) \<le> nearest64 (y - x)"
    by (simp only: nearest64_tiny)
  then have "0 < nearest64 (y - x)"
    using t by (rule less_le_trans [rotated])
  moreover have "0 < y - x"
    using assms(3) by simp
  ultimately show ?thesis
    by (simp add: round64_pos)
qed

lemma round64_exact:
  assumes "2 powi e \<le> \<bar>r\<bar>" and "\<bar>r\<bar> < 2 powi (e + 1)" and "e \<le> 1022"
    and "r = of_int n * 2 powi (max e (- 1022) - 52)"
  shows "round64 r = Fin r"
proof -
  have "r / 2 powi (max e (- 1022) - 52) = of_int n"
    by (simp add: assms(4))
  then have "\<bar>r / 2 powi (max e (- 1022) - 52) - of_int n\<bar> < 1 / 2"
    by simp
  then have "round64 r = Fin (of_int n * 2 powi (max e (- 1022) - 52))"
    by (intro round64_eval [OF assms(1-3)] disjI1)
  then show ?thesis
    by (simp only: assms(4) [symmetric])
qed

lemma round64_int:
  assumes "0 < m" and "m < 2 ^ 53"
  shows "round64 (of_int m) = Fin (of_int m)"
proof -
  define e where "e = float_exp (of_int m)"
  have m0: "(of_int m :: rat) \<noteq> 0"
    using assms(1) by simp
  have b: "2 powi e \<le> \<bar>of_int m :: rat\<bar>" "\<bar>of_int m :: rat\<bar> < 2 powi (e + 1)"
    using float_exp_bounds [OF m0] by (simp_all add: e_def)
  have "(2::rat) powi 0 \<le> \<bar>of_int m\<bar>"
    using assms(1) by simp
  also have "\<dots> < 2 powi (e + 1)"
    by (rule b(2))
  finally have e0: "0 \<le> e"
    using two_powi_less_cancel [of 0 "e + 1"] by simp
  have "(2::rat) powi e \<le> \<bar>of_int m\<bar>"
    by (rule b(1))
  also have "\<bar>of_int m :: rat\<bar> < of_int (2 ^ 53)"
    using assms by (simp only: of_int_abs [symmetric] of_int_less_iff)
  also have "(of_int (2 ^ 53) :: rat) = 2 powi 53"
    by simp
  finally have e53: "e < 53"
    by (rule two_powi_less_cancel)
  define k where "k = nat (52 - e)"
  have k: "int k = 52 - e"
    using e53 by (simp add: k_def)
  have "(2::rat) powi 0 = of_int (2 ^ k) * 2 powi (e - 52)"
    by (rule two_powi_scale) (simp add: k)
  then have "(of_int m :: rat) = of_int (m * 2 ^ k) * 2 powi (e - 52)"
    by simp
  then have "(of_int m :: rat) = of_int (m * 2 ^ k) * 2 powi (max e (- 1022) - 52)"
    using e0 by (simp add: max_def)
  then show ?thesis
    using b e53 by (intro round64_exact [of e _ "m * 2 ^ k"]) simp_all
qed

section \<open>Order of cells and monotone operations\<close>

lemma fle_PInf: "x \<noteq> NaN \<Longrightarrow> fle x PInf"
  by (cases x) simp_all

lemma fle_NInf: "y \<noteq> NaN \<Longrightarrow> fle NInf y"
  by (cases y) simp_all



lemma fsub_Fin: "fsub (Fin a) (Fin b) = round64 (a - b)"
  by (simp add: fsub_def)

lemma fsub_mono: "v \<le> w \<Longrightarrow> fle (fsub (Fin v) (Fin m)) (fsub (Fin w) (Fin m))"
  by (simp add: fsub_Fin round64_mono)

lemma fmul_mono:
  "0 \<le> c \<Longrightarrow> v \<le> w \<Longrightarrow> fle (fmul (Fin c) (Fin v)) (fmul (Fin c) (Fin w))"
  by (simp add: round64_mono mult_left_mono)

lemma fdiv_mono:
  assumes "0 < d" and "fle x y"
  shows "fle (fdiv x (Fin d)) (fdiv y (Fin d))"
proof -
  have n: "round64 r \<noteq> NaN" for r
    by (rule round64_not_NaN)
  show ?thesis
    using assms
    by (cases x; cases y)
      (simp_all add: round64_mono divide_right_mono inf_of_sign_def fle_PInf fle_NInf n)
qed

lemma fadd_mono:
  assumes "fle x y" and "v \<le> w"
  shows "fle (fadd x (Fin v)) (fadd y (Fin w))"
proof -
  have n: "round64 r \<noteq> NaN" for r
    by (rule round64_not_NaN)
  show ?thesis
    using assms
    by (cases x; cases y) (simp_all add: round64_mono fle_PInf fle_NInf n)
qed

lemma fadd_commute: "fadd x y = fadd y x"
  by (cases x; cases y) (simp_all add: add.commute)

lemma is_float64_int: "0 < m \<Longrightarrow> m < 2 ^ 53 \<Longrightarrow> is_float64 (of_int m)"
  by (simp only: is_float64_def round64_int)

section \<open>Reductions of a column of finite numbers\<close>

lemma filter_notnull_Fin: "filter notnull (map Fin vs) = map Fin vs"
  by (induction vs) simp_all

lemma fold_fmin_Fin: "fold fmin (map Fin vs) (Fin v) = Fin (fold min vs v)"
proof (induction vs arbitrary: v)
  case Nil
  show ?case by simp
next
  case (Cons w ws)
  have "fmin (Fin w) (Fin v) = Fin (min w v)"
    by (simp add: fmin_def min_def)
  then show ?case
    using Cons.IH [of "min w v"] by simp
qed

lemma fold_fmax_Fin: "fold fmax (map Fin vs) (Fin v) = Fin (fold max vs v)"
proof (induction vs arbitrary: v)
  case Nil
  show ?case by simp
next
  case (Cons w ws)
  have "fmax (Fin w) (Fin v) = Fin (max w v)"
    by (auto simp: fmax_def max_def)
  then show ?case
    using Cons.IH [of "max w v"] by simp
qed

lemma series_min_Fin:
  assumes "vs \<noteq> []"
  shows "series_min (map Fin vs) = Fin (Min (set vs))"
proof -
  obtain w ws where vs: "vs = w # ws"
    using assms by (cases vs) auto
  have "series_min (map Fin vs) = Fin (fold min ws w)"
    by (simp add: series_min_def filter_notnull_Fin vs fold_fmin_Fin)
  also have "fold min ws w = Min (set vs)"
    unfolding vs by (rule Min.set_eq_fold [symmetric])
  finally show ?thesis .
qed

lemma series_max_Fin:
  assumes "vs \<noteq> []"
  shows "series_max (map Fin vs) = Fin (Max (set vs))"
proof -
  obtain w ws where vs: "vs = w # ws"
    using assms by (cases vs) auto
  have "series_max (map Fin vs) = Fin (fold max ws w)"
    by (simp add: series_max_def filter_notnull_Fin vs fold_fmax_Fin)
  also have "fold max ws w = Max (set vs)"
    unfolding vs by (rule Max.set_eq_fold [symmetric])
  finally show ?thesis .
qed

section \<open>The cells of a rescaled column\<close>

lemma rescale_nth:
  assumes "i < length vs"
  shows "rescale_to_range a b (map Fin vs) ! i =
         fadd (fdiv (fmul (fsub b a) (fsub (Fin (vs ! i)) (Fin (Min (set vs)))))
                    (fsub (Fin (Max (set vs))) (Fin (Min (set vs))))) a"
proof -
  have "vs \<noteq> []"
    using assms by auto
  then show ?thesis
    using assms by (simp add: rescale_to_range_def series_min_Fin series_max_Fin)
qed

lemma two_distinct_Min_less_Max:
  fixes vs :: "rat list"
  assumes "x \<in> set vs" and "y \<in> set vs" and "x \<noteq> y"
  shows "Min (set vs) < Max (set vs)"
proof -
  have "Min (set vs) \<le> x" "x \<le> Max (set vs)" "Min (set vs) \<le> y" "y \<le> Max (set vs)"
    using assms by simp_all
  with assms(3) show ?thesis by linarith
qed

lemma new_range_finite:
  assumes "a \<le> b" and "fsub (Fin b) (Fin a) \<noteq> PInf"
  shows "\<exists>c\<ge>0. fsub (Fin b) (Fin a) = Fin c"
  using assms round64_nonneg [of "b - a"] by (simp add: fsub_Fin)

lemma old_range_finite:
  assumes "is_float64 mn" and "is_float64 mx" and "mn < mx"
    and "fsub (Fin mx) (Fin mn) \<noteq> PInf"
  shows "\<exists>d>0. fsub (Fin mx) (Fin mn) = Fin d"
  using assms float64_diff_pos [of mn mx] by (simp add: fsub_Fin)

lemma cell_mono:
  assumes c: "0 \<le> c" and d: "fsub (Fin mx) (Fin mn) = Fin d" "0 < d"
    and v: "mn \<le> v" "v \<le> w" "w \<le> mx"
  shows "fle (fadd (fdiv (fmul (Fin c) (fsub (Fin v) (Fin mn))) (Fin d)) (Fin a))
             (fadd (fdiv (fmul (Fin c) (fsub (Fin w) (Fin mn))) (Fin d)) (Fin a))"
proof -
  have "fle (fsub (Fin mn) (Fin mn)) (fsub (Fin v) (Fin mn))"
    using v(1) by (rule fsub_mono)
  then have 1: "fle (Fin 0) (fsub (Fin v) (Fin mn))"
    by (simp add: fsub_Fin round64_zero)
  have 2: "fle (fsub (Fin v) (Fin mn)) (fsub (Fin w) (Fin mn))"
    using v(2) by (rule fsub_mono)
  have "fle (fsub (Fin w) (Fin mn)) (fsub (Fin mx) (Fin mn))"
    using v(3) by (rule fsub_mono)
  then have 3: "fle (fsub (Fin w) (Fin mn)) (Fin d)"
    by (simp only: d(1))
  obtain p q where p: "fsub (Fin v) (Fin mn) = Fin p" and q: "fsub (Fin w) (Fin mn) = Fin q"
    and pq: "p \<le> q"
    using 1 2 3 by (cases "fsub (Fin v) (Fin mn)"; cases "fsub (Fin w) (Fin mn)") simp_all
  have "fle (fmul (Fin c) (Fin p)) (fmul (Fin c) (Fin q))"
    using c pq by (rule fmul_mono)
  then have "fle (fdiv (fmul (Fin c) (Fin p)) (Fin d)) (fdiv (fmul (Fin c) (Fin q)) (Fin d))"
    using d(2) by (intro fdiv_mono)
  then show ?thesis
    unfolding p q by (intro fadd_mono) simp_all
qed


lemma rescale_mono:
  assumes "a \<le> b" and "\<forall>v\<in>set vs. is_float64 v"
    and "fsub (Fin b) (Fin a) \<noteq> PInf"
    and "fsub (Fin (Max (set vs))) (Fin (Min (set vs))) \<noteq> PInf"
    and "Min (set vs) < Max (set vs)"
    and "i < length vs" and "j < length vs" and "vs ! i \<le> vs ! j"
  shows "fle (rescale_to_range (Fin a) (Fin b) (map Fin vs) ! i)
             (rescale_to_range (Fin a) (Fin b) (map Fin vs) ! j)"
proof -
  have mem: "vs ! i \<in> set vs" "vs ! j \<in> set vs"
    using assms(6,7) by simp_all
  have "vs \<noteq> []"
    using assms(6) by auto
  then have "Min (set vs) \<in> set vs" "Max (set vs) \<in> set vs"
    by simp_all
  then have fl: "is_float64 (Min (set vs))" "is_float64 (Max (set vs))"
    using assms(2) by blast+
  obtain c where c: "0 \<le> c" "fsub (Fin b) (Fin a) = Fin c"
    using new_range_finite [OF assms(1,3)] by blast
  obtain d where d: "0 < d" "fsub (Fin (Max (set vs))) (Fin (Min (set vs))) = Fin d"
    using old_range_finite [OF fl assms(5,4)] by blast
  have "Min (set vs) \<le> vs ! i" "vs ! j \<le> Max (set vs)"
    using mem by simp_all
  then show ?thesis
    using cell_mono [OF c(1) d(2) d(1), of "vs ! i" "vs ! j" a] assms(8)
    by (simp add: rescale_nth assms(6,7) c(2) d(2))
qed



section \<open>Properties of rescaling\<close>

text \<open>
  C1 (as the code behaves). For a float64 column \<open>vs\<close> with minimum \<open>oldMin\<close> and
  maximum \<open>oldMax\<close> and float64 bounds \<open>a\<close> (the new minimum) and \<open>b\<close> (the new maximum),
  \<open>rescale_to_range\<close> returns a column of the same length whose \<open>i\<close>-th cell is the
  float64 evaluation of \<open>a + (b - a) * (vs[i] - oldMin) / (oldMax - oldMin)\<close>, every
  operation rounded to the nearest float64. The counterexample shows a cell that
  differs from the exact value of the formula: for the column \<open>[0, 1, 3]\<close> and the
  bounds \<open>0\<close> and \<open>1\<close> the middle cell is the float64 nearest to \<open>1/3\<close>.
\<close>

theorem rescale_to_range_formula:
  assumes "vs \<noteq> []" and "\<forall>v\<in>set vs. is_float64 v" and "is_float64 a" and "is_float64 b"
  shows "length (rescale_to_range (Fin a) (Fin b) (map Fin vs)) = length vs \<and>
         (\<forall>i<length vs.
            rescale_to_range (Fin a) (Fin b) (map Fin vs) ! i =
            fadd (Fin a)
              (fdiv (fmul (fsub (Fin b) (Fin a)) (fsub (Fin (vs ! i)) (Fin (Min (set vs)))))
                    (fsub (Fin (Max (set vs))) (Fin (Min (set vs))))))"
proof -
  have "length (rescale_to_range (Fin a) (Fin b) (map Fin vs)) = length vs"
    by (simp add: rescale_to_range_def)
  then show ?thesis
    by (simp add: rescale_nth fadd_commute [of "Fin a"])
qed

theorem rescale_to_range_formula_witness:
  "rescale_to_range (Fin 10) (Fin 50) (map Fin [1, 3, 9]) ! 1 = Fin 20"
proof -
  note r = round64_int [of 2, simplified] round64_int [of 8, simplified]
    round64_int [of 10, simplified] round64_int [of 20, simplified]
    round64_int [of 40, simplified] round64_int [of 80, simplified]
  note f = is_float64_int [of 1, simplified] is_float64_int [of 3, simplified]
    is_float64_int [of 9, simplified] is_float64_int [of 10, simplified]
    is_float64_int [of 50, simplified]
  have h: "[1, 3, 9 :: rat] \<noteq> []" "\<forall>v\<in>set [1, 3, 9]. is_float64 v"
    "is_float64 10" "is_float64 50"
    by (simp_all add: f)
  have "fadd (Fin 10) (fdiv (fmul (fsub (Fin 50) (Fin 10)) (fsub (Fin 3) (Fin 1)))
                            (fsub (Fin 9) (Fin 1))) = Fin 20"
    by (simp add: fsub_Fin r)
  then show ?thesis
    using rescale_to_range_formula [OF h] by simp
qed

theorem rescale_to_range_formula_counterexample:
  "rescale_to_range (Fin 0) (Fin 1) [Fin 0, Fin 1, Fin 3] ! 1 =
     Fin (6004799503160661 / 18014398509481984) \<and>
   (6004799503160661 / 18014398509481984 :: rat) \<noteq> 0 + (1 - 0) * (1 - 0) / (3 - 0)"
proof -
  note r = round64_int [of 1, simplified] round64_int [of 3, simplified]
    round64_eval [of "- 2" "1 / 3" 6004799503160661, simplified]
    round64_eval [of "- 2" "6004799503160661 / 18014398509481984" 6004799503160661, simplified]
  have "rescale_to_range (Fin 0) (Fin 1) [Fin 0, Fin 1, Fin 3] =
        [Fin 0, Fin (6004799503160661 / 18014398509481984), Fin 1]"
    by (simp add: rescale_to_range_def series_min_def series_max_def fmin_def fmax_def
        fsub_Fin round64_zero r)
  then show ?thesis
    by simp
qed




text \<open>
  C3 (as the code behaves). For a float64 column and float64 bounds \<open>a < b\<close>, where neither
  \<open>b - a\<close> nor the range of the column overflows, rescaling preserves order, but not
  strictly: whenever \<open>vs[i] < vs[j]\<close>, the \<open>i\<close>-th rescaled cell is at most the
  \<open>j\<close>-th. The counterexample rescales \<open>[1, 1 + 2^-52, 3]\<close> to the bounds \<open>1\<close> and
  \<open>2\<close>: the first two cells, which differ, are both mapped to \<open>1\<close>.
\<close>

theorem rescale_to_range_mono:
  assumes "a < b" and "\<forall>v\<in>set vs. is_float64 v"
    and "fsub (Fin b) (Fin a) \<noteq> PInf"
    and "fsub (Fin (Max (set vs))) (Fin (Min (set vs))) \<noteq> PInf"
    and "i < length vs" and "j < length vs" and "vs ! i < vs ! j"
    and "is_float64 a" and "is_float64 b"
  shows "fle (rescale_to_range (Fin a) (Fin b) (map Fin vs) ! i)
             (rescale_to_range (Fin a) (Fin b) (map Fin vs) ! j)"
proof -
  have "vs ! i \<in> set vs" "vs ! j \<in> set vs" "vs ! i \<noteq> vs ! j"
    using assms(5-7) by simp_all
  then have lt: "Min (set vs) < Max (set vs)"
    by (rule two_distinct_Min_less_Max)
  have "a \<le> b" "vs ! i \<le> vs ! j"
    using assms(1,7) by simp_all
  then show ?thesis
    using assms(2-6) lt by (intro rescale_mono)
qed

theorem rescale_to_range_mono_witness:
  "fle (rescale_to_range (Fin 10) (Fin 50) (map Fin [9, 1, 5]) ! 2)
       (rescale_to_range (Fin 10) (Fin 50) (map Fin [9, 1, 5]) ! 0)"
proof -
  note f = is_float64_int [of 1, simplified] is_float64_int [of 5, simplified]
    is_float64_int [of 9, simplified] is_float64_int [of 10, simplified]
    is_float64_int [of 50, simplified]
  note r = round64_int [of 40, simplified] round64_int [of 8, simplified]
  have h: "(10::rat) < 50" "\<forall>v\<in>set [9, 1, 5]. is_float64 v"
    "fsub (Fin 50) (Fin 10) \<noteq> PInf"
    "fsub (Fin (Max (set [9, 1, 5]))) (Fin (Min (set [9, 1, 5]))) \<noteq> PInf"
    "(2::nat) < length [9, 1, 5 :: rat]" "(0::nat) < length [9, 1, 5 :: rat]"
    "[9, 1, 5 :: rat] ! 2 < [9, 1, 5] ! 0" "is_float64 10" "is_float64 50"
    by (simp_all add: f fsub_Fin r)
  show ?thesis
    using rescale_to_range_mono [OF h] .
qed

theorem rescale_to_range_mono_counterexample:
  "rescale_to_range (Fin 1) (Fin 2) [Fin 1, Fin (4503599627370497 / 4503599627370496), Fin 3] =
   [Fin 1, Fin 1, Fin 2]"
proof -
  note r = round64_int [of 1, simplified] round64_int [of 2, simplified]
    round64_eval [of "- 52" "1 / 4503599627370496" 4503599627370496, simplified]
    round64_eval [of "- 53" "1 / 9007199254740992" 4503599627370496, simplified]
    round64_eval [of 0 "9007199254740993 / 9007199254740992" 4503599627370496, simplified]
  show ?thesis
    by (simp add: rescale_to_range_def series_min_def series_max_def fmin_def fmax_def
        fsub_Fin round64_zero r)
qed

lemma cell_constant:
  "fadd (fdiv (fmul X (fsub (Fin v) (Fin v))) (fsub (Fin v) (Fin v))) A = NaN"
  by (cases X) (simp_all add: fsub_Fin round64_zero inf_of_sign_def)

text \<open>
  C4 (as the code behaves). For a column of numbers whose cells are all equal, the
  observed maximum equals the observed minimum and \<open>rescale_to_range\<close> does not fail:
  it returns a column of the same length in which every cell is NaN. In particular,
  rescaling \<open>[7, 7, 7]\<close> to the bounds \<open>0\<close> and \<open>100\<close> returns \<open>[NaN, NaN, NaN]\<close>.
\<close>

theorem rescale_to_range_constant:
  assumes "\<forall>w\<in>set vs. w = v"
  shows "rescale_to_range (Fin a) (Fin b) (map Fin vs) = replicate (length vs) NaN"
proof (cases "vs = []")
  case True
  then show ?thesis
    by (simp add: rescale_to_range_def)
next
  case False
  then have "set vs = {v}"
    using assms by (cases vs) auto
  then have mn: "series_min (map Fin vs) = Fin v" and mx: "series_max (map Fin vs) = Fin v"
    using False by (simp_all add: series_min_Fin series_max_Fin)
  have "rescale_to_range (Fin a) (Fin b) (map Fin vs) = map (\<lambda>w. NaN) vs"
    unfolding rescale_to_range_def mn mx
    using assms by (simp add: cell_constant)
  then show ?thesis
    by (simp add: map_replicate_const)
qed

theorem rescale_to_range_constant_witness:
  "rescale_to_range (Fin 10) (Fin 50) (map Fin [3, 3]) = [NaN, NaN]"
  using rescale_to_range_constant [of "[3, 3]" 3 10 50] by (simp add: numeral_2_eq_2)

theorem rescale_to_range_constant_counterexample:
  "rescale_to_range (Fin 0) (Fin 100) [Fin 7, Fin 7, Fin 7] = [NaN, NaN, NaN]"
  by (simp add: rescale_to_range_def series_min_def series_max_def fmin_def fmax_def
      cell_constant)

section \<open>The rounding error\<close>

lemma nearest64_error: "\<bar>nearest64 r - r\<bar> \<le> quantum r / 2"
proof -
  define q where "q = quantum r"
  have q0: "0 < q"
    unfolding q_def by (rule quantum_pos)
  have "nearest64 r - r = (of_int (rhe (r / q)) - r / q) * q"
    using q0 by (simp add: nearest64_def q_def field_simps)
  then have "\<bar>nearest64 r - r\<bar> = \<bar>of_int (rhe (r / q)) - r / q\<bar> * q"
    using q0 by (simp add: abs_mult)
  also have "\<dots> \<le> (1 / 2) * q"
    using rhe_error [of "r / q"] q0 by (intro mult_right_mono) simp_all
  finally show ?thesis
    by (simp add: q_def)
qed

lemma quantum_le:
  assumes "r \<noteq> 0"
  shows "quantum r \<le> 2 powi (- 52) * \<bar>r\<bar> + 2 powi (- 1074)"
proof (cases "- 1022 \<le> float_exp r")
  case True
  define j :: int where "j = - 52"
  have "quantum r = 2 powi (j + float_exp r)"
    using True by (simp add: quantum_def max_def j_def)
  also have "\<dots> = 2 powi j * 2 powi float_exp r"
    by (rule two_powi_add)
  also have "\<dots> \<le> 2 powi j * \<bar>r\<bar>"
    using float_exp_bounds(1) [OF assms] two_powi_pos [of j] by (intro mult_left_mono) simp_all
  also have "\<dots> \<le> 2 powi j * \<bar>r\<bar> + 2 powi (- 1074)"
    using two_powi_pos [of "- 1074"] by linarith
  finally show ?thesis
    by (simp only: j_def)
next
  case False
  define j :: int where "j = - 1074"
  have "max (float_exp r) (- 1022) - 52 = j"
    using False by (simp add: j_def)
  then have "quantum r = 2 powi j"
    by (simp only: quantum_def)
  moreover have "0 \<le> 2 powi (- 52) * \<bar>r\<bar>"
    using two_powi_pos [of "- 52"] by simp
  ultimately have "quantum r \<le> 2 powi (- 52) * \<bar>r\<bar> + 2 powi j"
    by linarith
  then show ?thesis
    by (simp only: j_def)
qed

lemma abs_nearest64_upper:
  assumes "r \<noteq> 0"
  shows "\<bar>nearest64 r\<bar> \<le> 2 powi (max (float_exp r) (- 1022) + 1)"
proof (cases "0 < r")
  case True
  then have "0 \<le> nearest64 r"
    by (intro nearest64_nonneg) simp
  then show ?thesis
    using nearest64_upper [OF True] by simp
next
  case False
  then have neg: "0 < - r"
    using assms by simp
  then have "0 \<le> nearest64 (- r)"
    by (intro nearest64_nonneg) simp
  then show ?thesis
    using nearest64_upper [OF neg] by (simp add: nearest64_minus float_exp_minus)
qed

lemma round64_error:
  assumes "\<bar>r\<bar> < 2 powi 1023"
  shows "\<exists>v. round64 r = Fin v \<and> \<bar>v - r\<bar> \<le> 2 powi (- 53) * \<bar>r\<bar> + 2 powi (- 1075)"
proof (cases "r = 0")
  case True
  have "0 \<le> (2::rat) powi (- 53) * \<bar>0\<bar> + 2 powi (- 1075)"
    using two_powi_pos [of "- 1075"] by simp
  then show ?thesis
    using True by (simp add: round64_zero)
next
  case False
  define T :: rat where "T = 2 powi 1023"
  have "(2::rat) powi float_exp r \<le> \<bar>r\<bar>"
    using float_exp_bounds(1) [OF False] .
  also have "\<dots> < 2 powi 1023"
    by (rule assms)
  finally have e: "float_exp r < 1023"
    by (rule two_powi_less_cancel)
  have "\<bar>nearest64 r\<bar> \<le> 2 powi (max (float_exp r) (- 1022) + 1)"
    using False by (rule abs_nearest64_upper)
  also have "\<dots> \<le> 2 powi 1023"
    using e by (intro two_powi_mono) simp
  also have "\<dots> < 2 powi 1024"
    by (intro power_int_strict_increasing) simp_all
  finally have "\<not> 2 powi 1024 \<le> \<bar>nearest64 r\<bar>"
    by simp
  then have v: "round64 r = Fin (nearest64 r)"
    using False by (simp add: round64_def)
  define a :: rat where "a = 2 powi (- 52) * \<bar>r\<bar>"
  define t :: rat where "t = 2 powi (- 1074)"
  have h: "(2::rat) powi (- 52) / 2 = 2 powi (- 53)" "(2::rat) powi (- 1074) / 2 = 2 powi (- 1075)"
    by simp_all
  have "\<bar>nearest64 r - r\<bar> \<le> quantum r / 2"
    by (rule nearest64_error)
  also have "\<dots> \<le> (a + t) / 2"
    using quantum_le [OF False] by (simp add: a_def t_def)
  also have "\<dots> = 2 powi (- 52) / 2 * \<bar>r\<bar> + 2 powi (- 1074) / 2"
    by (simp add: a_def t_def add_divide_distrib)
  also have "\<dots> = 2 powi (- 53) * \<bar>r\<bar> + 2 powi (- 1075)"
    by (simp only: h)
  finally show ?thesis
    using v by blast
qed

text \<open>
  The error of the rescaling expression when the column already spans the bounds,
  from the error of each rounded operation: \<open>u\<close> is the relative and \<open>h\<close> the absolute
  rounding error, \<open>L\<close> the width of the range, \<open>t\<close> the distance of the cell from the
  minimum, and \<open>w\<close>, \<open>c\<close>, \<open>p\<close>, \<open>q\<close> and \<open>r\<close> the rounded results in the order of
  evaluation.
\<close>

lemma identity_step1:
  fixes u h l L t w c :: rat
  assumes u: "0 < u" "1000 * u \<le> 1" and h: "0 \<le> h" "1000 * h \<le> u * l"
    and l: "0 < l" "l \<le> L" and t: "0 \<le> t" "t \<le> L"
    and w: "\<bar>w - t\<bar> \<le> u * \<bar>t\<bar> + h" and c: "\<bar>c - L\<bar> \<le> u * \<bar>L\<bar> + h"
  shows "1000 * (u * L) \<le> L" and "1000 * h \<le> u * L"
    and "\<bar>w - t\<bar> \<le> 1001 / 1000 * (u * L)" and "\<bar>w\<bar> \<le> 1002 / 1000 * L"
    and "998 / 1000 * L \<le> c" and "c \<le> 1002 / 1000 * L"
    and "\<bar>c * w\<bar> \<le> 2 * (L * L)"
proof -
  have L0: "0 < L"
    using l by simp
  have "(1000 * u) * L \<le> 1 * L"
    using u(2) L0 by (intro mult_right_mono) simp_all
  then show uL: "1000 * (u * L) \<le> L"
    by simp
  have "u * l \<le> u * L"
    using u(1) l(2) by (intro mult_left_mono) simp_all
  then show hL: "1000 * h \<le> u * L"
    using h(2) by simp
  have ut: "u * \<bar>t\<bar> \<le> u * L"
    using u(1) t by (intro mult_left_mono) simp_all
  show wt: "\<bar>w - t\<bar> \<le> 1001 / 1000 * (u * L)"
    using w ut hL by linarith
  show w': "\<bar>w\<bar> \<le> 1002 / 1000 * L"
    using wt uL t by linarith
  have "\<bar>L\<bar> = L"
    using L0 by simp
  then have cL: "\<bar>c - L\<bar> \<le> 1001 / 1000 * (u * L)"
    using c hL by linarith
  show c1: "998 / 1000 * L \<le> c"
    using cL uL by linarith
  show c2: "c \<le> 1002 / 1000 * L"
    using cL uL by linarith
  have c0: "0 \<le> c"
    using c1 L0 by linarith
  have "\<bar>c * w\<bar> = c * \<bar>w\<bar>"
    using c0 by (simp add: abs_mult)
  also have "\<dots> \<le> (1002 / 1000 * L) * (1002 / 1000 * L)"
    using c2 w' c0 L0 by (intro mult_mono) simp_all
  also have "\<dots> = (1002 / 1000 * (1002 / 1000)) * (L * L)"
    by (simp only: mult_ac)
  also have "\<dots> \<le> 2 * (L * L)"
    using L0 by (intro mult_right_mono) simp_all
  finally show "\<bar>c * w\<bar> \<le> 2 * (L * L)" .
qed

lemma identity_step2:
  fixes u h l L t w c p :: rat
  assumes u: "0 < u" "1000 * u \<le> 1" and h: "0 \<le> h" "1000 * h \<le> u * l"
    and h2: "2000 * h \<le> u * (l * l)"
    and l: "0 < l" "l \<le> L" and t: "0 \<le> t" "t \<le> L"
    and w: "\<bar>w - t\<bar> \<le> u * \<bar>t\<bar> + h" and c: "\<bar>c - L\<bar> \<le> u * \<bar>L\<bar> + h"
    and p: "\<bar>p - c * w\<bar> \<le> u * \<bar>c * w\<bar> + h"
  shows "0 < c" and "\<bar>p / c - w\<bar> \<le> 1003 / 1000 * (u * L)" and "\<bar>p / c\<bar> \<le> 1004 / 1000 * L"
proof -
  note s1 = identity_step1 [OF u h l t w c]
  have L0: "0 < L"
    using l by simp
  show c0: "0 < c"
    using s1(5) L0 by linarith
  have "l * l \<le> L * L"
    using l by (intro mult_mono) simp_all
  then have "u * (l * l) \<le> u * (L * L)"
    using u(1) by (intro mult_left_mono) simp_all
  then have hLL: "2000 * h \<le> u * (L * L)"
    using h2 by linarith
  have uL0: "0 \<le> u * L"
    using u(1) L0 by simp
  have "(u * L) * (998 / 1000 * L) \<le> (u * L) * c"
    using s1(5) uL0 by (intro mult_left_mono)
  moreover have "(u * L) * (998 / 1000 * L) = 998 / 1000 * (u * (L * L))"
    by (simp only: mult_ac)
  moreover have "0 \<le> u * (L * L)"
    using u(1) L0 by simp
  ultimately have "h \<le> (u * L / 1000) * c"
    using hLL by (simp add: field_simps)
  then have hc: "h / c \<le> u * L / 1000"
    using c0 by (simp only: pos_divide_le_eq)
  have "\<bar>c * w\<bar> = c * \<bar>w\<bar>"
    using c0 by (simp add: abs_mult)
  then have "\<bar>p - c * w\<bar> \<le> u * (c * \<bar>w\<bar>) + h"
    using p by simp
  then have "\<bar>p - c * w\<bar> / c \<le> (u * (c * \<bar>w\<bar>) + h) / c"
    using c0 by (intro divide_right_mono) simp_all
  moreover have "(u * (c * \<bar>w\<bar>) + h) / c = u * \<bar>w\<bar> + h / c"
    using c0 by (simp add: field_simps)
  moreover have "p / c - w = (p - c * w) / c"
    using c0 by (simp add: field_simps)
  then have "\<bar>p / c - w\<bar> = \<bar>p - c * w\<bar> / c"
    using c0 by (simp add: abs_divide)
  ultimately have e: "\<bar>p / c - w\<bar> \<le> u * \<bar>w\<bar> + h / c"
    by simp
  have "u * \<bar>w\<bar> \<le> u * (1002 / 1000 * L)"
    using s1(4) u(1) by (intro mult_left_mono) simp_all
  then have uw: "u * \<bar>w\<bar> \<le> 1002 / 1000 * (u * L)"
    by simp
  show e': "\<bar>p / c - w\<bar> \<le> 1003 / 1000 * (u * L)"
    using e uw hc by linarith
  show "\<bar>p / c\<bar> \<le> 1004 / 1000 * L"
    using e' s1(4) s1(1) by linarith
qed

lemma identity_step3:
  fixes u h l L M t a w c p q r :: rat
  assumes u: "0 < u" "1000 * u \<le> 1" and h: "0 \<le> h" "1000 * h \<le> u * l"
    and h2: "2000 * h \<le> u * (l * l)"
    and l: "0 < l" "l \<le> L" and t: "0 \<le> t" "t \<le> L"
    and w: "\<bar>w - t\<bar> \<le> u * \<bar>t\<bar> + h" and c: "\<bar>c - L\<bar> \<le> u * \<bar>L\<bar> + h"
    and p: "\<bar>p - c * w\<bar> \<le> u * \<bar>c * w\<bar> + h"
    and q: "\<bar>q - p / c\<bar> \<le> u * \<bar>p / c\<bar> + h"
    and M: "L \<le> 2 * M" "\<bar>t + a\<bar> \<le> M"
  shows "\<bar>q - t\<bar> \<le> 301 / 100 * (u * L)" and "\<bar>q + a\<bar> \<le> 2 * M"
proof -
  note s1 = identity_step1 [OF u h l t w c]
  note s2 = identity_step2 [OF u h h2 l t w c p]
  have L0: "0 < L"
    using l by simp
  have "u * \<bar>p / c\<bar> \<le> u * (1004 / 1000 * L)"
    using s2(3) u(1) by (intro mult_left_mono) simp_all
  then have "u * \<bar>p / c\<bar> \<le> 1004 / 1000 * (u * L)"
    by simp
  then have "\<bar>q - p / c\<bar> \<le> 1005 / 1000 * (u * L)"
    using q s1(2) by linarith
  then show qt: "\<bar>q - t\<bar> \<le> 301 / 100 * (u * L)"
    using s2(2) s1(3) u(1) L0 by linarith
  show "\<bar>q + a\<bar> \<le> 2 * M"
    using qt s1(1) M L0 by linarith
qed

lemma identity_final:
  fixes u h l L M t a w c p q r :: rat
  assumes u: "0 < u" "1000 * u \<le> 1" and h: "0 \<le> h" "1000 * h \<le> u * l"
    and h2: "2000 * h \<le> u * (l * l)"
    and l: "0 < l" "l \<le> L" and t: "0 \<le> t" "t \<le> L"
    and w: "\<bar>w - t\<bar> \<le> u * \<bar>t\<bar> + h" and c: "\<bar>c - L\<bar> \<le> u * \<bar>L\<bar> + h"
    and p: "\<bar>p - c * w\<bar> \<le> u * \<bar>c * w\<bar> + h"
    and q: "\<bar>q - p / c\<bar> \<le> u * \<bar>p / c\<bar> + h"
    and M: "L \<le> 2 * M" "\<bar>t + a\<bar> \<le> M"
    and r: "\<bar>r - (q + a)\<bar> \<le> u * \<bar>q + a\<bar> + h"
  shows "\<bar>r - (t + a)\<bar> \<le> 8 * u * M"
proof -
  note s1 = identity_step1 [OF u h l t w c]
  note s3 = identity_step3 [OF u h h2 l t w c p q M]
  have L0: "0 < L"
    using l by simp
  have uL0: "0 \<le> u * L"
    using u(1) L0 by simp
  have "\<bar>q + a\<bar> \<le> M + 301 / 100 * (u * L)"
    using s3(1) M(2) by linarith
  then have "u * \<bar>q + a\<bar> \<le> u * (M + 301 / 100 * (u * L))"
    using u(1) by (intro mult_left_mono) simp_all
  then have 1: "u * \<bar>q + a\<bar> \<le> u * M + 301 / 100 * (u * (u * L))"
    by (simp add: algebra_simps)
  have "(1000 * u) * (u * L) \<le> 1 * (u * L)"
    using u(2) uL0 by (intro mult_right_mono)
  then have 2: "1000 * (u * (u * L)) \<le> u * L"
    by simp
  have "u * L \<le> u * (2 * M)"
    using M(1) u(1) by (intro mult_left_mono) simp_all
  then have 3: "u * L \<le> 2 * (u * M)"
    by simp
  have "\<bar>r - (t + a)\<bar> \<le> 8 * (u * M)"
    using r 1 2 3 uL0 s1(2) s3(1) by linarith
  then show ?thesis
    by simp
qed

lemma cell_identity:
  fixes a b v :: rat
  assumes v: "a \<le> v" "v \<le> b" and range: "2 powi (- 500) \<le> b - a"
    and a: "\<bar>a\<bar> \<le> 2 powi 500" and b: "\<bar>b\<bar> \<le> 2 powi 500"
  shows "\<exists>r. fadd (fdiv (fmul (fsub (Fin b) (Fin a)) (fsub (Fin v) (Fin a)))
                         (fsub (Fin b) (Fin a))) (Fin a) = Fin r \<and>
             \<bar>r - v\<bar> \<le> 2 powi (- 50) * max \<bar>a\<bar> \<bar>b\<bar>"
proof -
  define u :: rat where "u = 2 powi (- 53)"
  define h :: rat where "h = 2 powi (- 1075)"
  define l :: rat where "l = 2 powi (- 500)"
  define B :: rat where "B = 2 powi 500"
  define T :: rat where "T = 2 powi 1023"
  define L where "L = b - a"
  define t where "t = v - a"
  define M where "M = max \<bar>a\<bar> \<bar>b\<bar>"
  have u: "0 < u" "1000 * u \<le> 1"
    by (simp_all add: u_def)
  have h: "0 \<le> h" "1000 * h \<le> u * l"
    by (simp_all add: u_def h_def l_def)
  have h2: "2000 * h \<le> u * (l * l)"
    by (simp add: u_def h_def l_def)
  have l: "0 < l" "l \<le> L"
    using range by (simp_all add: l_def L_def)
  have BT: "2 * B < T" "8 * (B * B) < T" "0 < B" "4 * B < T"
    by (simp_all add: B_def T_def)
  have t: "0 \<le> t" "t \<le> L"
    using v by (simp_all add: t_def L_def)
  have L0: "0 < L"
    using l by simp
  have LB: "L \<le> 2 * B"
    using a b by (simp add: L_def B_def)
  have M: "L \<le> 2 * M" "\<bar>t + a\<bar> \<le> M"
    using v by (simp_all add: L_def t_def M_def)
  have MB: "M \<le> B"
    using a b by (simp add: M_def B_def)
  note err = round64_error [folded u_def h_def T_def]
  have "\<bar>t\<bar> < T"
    using t LB BT(1) by linarith
  then obtain w where w: "round64 t = Fin w" "\<bar>w - t\<bar> \<le> u * \<bar>t\<bar> + h"
    using err by blast
  have "\<bar>L\<bar> < T"
    using L0 LB BT(1) by linarith
  then obtain c where c: "round64 L = Fin c" "\<bar>c - L\<bar> \<le> u * \<bar>L\<bar> + h"
    using err by blast
  note s1 = identity_step1 [OF u h l t w(2) c(2)]
  have "L * L \<le> (2 * B) * (2 * B)"
    using LB L0 by (intro mult_mono) simp_all
  then have "\<bar>c * w\<bar> < T"
    using s1(7) BT(2) by linarith
  then obtain p where p: "round64 (c * w) = Fin p" "\<bar>p - c * w\<bar> \<le> u * \<bar>c * w\<bar> + h"
    using err by blast
  note s2 = identity_step2 [OF u h h2 l t w(2) c(2) p(2)]
  have "\<bar>p / c\<bar> < T"
    using s2(3) LB BT(3,4) L0 by linarith
  then obtain q where q: "round64 (p / c) = Fin q" "\<bar>q - p / c\<bar> \<le> u * \<bar>p / c\<bar> + h"
    using err by blast
  note s3 = identity_step3 [OF u h h2 l t w(2) c(2) p(2) q(2) M]
  have "\<bar>q + a\<bar> < T"
    using s3(2) MB BT(1) by linarith
  then obtain r where r: "round64 (q + a) = Fin r" "\<bar>r - (q + a)\<bar> \<le> u * \<bar>q + a\<bar> + h"
    using err by blast
  have "\<bar>r - (t + a)\<bar> \<le> 8 * u * M"
    by (rule identity_final [OF u h h2 l t w(2) c(2) p(2) q(2) M r(2)])
  moreover have "8 * u = 2 powi (- 50)"
    by (simp add: u_def)
  ultimately have bound: "\<bar>r - v\<bar> \<le> 2 powi (- 50) * max \<bar>a\<bar> \<bar>b\<bar>"
    by (simp add: t_def M_def)
  have "c \<noteq> 0"
    using s2(1) by simp
  then have "fadd (fdiv (fmul (fsub (Fin b) (Fin a)) (fsub (Fin v) (Fin a)))
                        (fsub (Fin b) (Fin a))) (Fin a) = Fin r"
    using w(1) c(1) p(1) q(1) r(1) by (simp add: fsub_Fin L_def [symmetric] t_def [symmetric])
  then show ?thesis
    using bound by blast
qed

text \<open>
  C5 (as the code behaves). For a float64 column whose minimum is exactly \<open>a\<close> and
  whose maximum is exactly \<open>b\<close>, rescaling to the bounds \<open>a\<close> and \<open>b\<close> returns the
  same column up to rounding, provided the magnitudes let no intermediate result
  overflow or underflow: when \<open>2 powi (- 500) \<le> b - a\<close> and \<open>\<bar>a\<bar>\<close> and \<open>\<bar>b\<bar>\<close> are at
  most \<open>2 powi 500\<close>, every cell of the result is a finite number within
  \<open>2 powi (- 50) * max \<bar>a\<bar> \<bar>b\<bar>\<close> of the cell it comes from. The counterexample has
  the bounds \<open>- 2 ^ 1023\<close> and \<open>2 ^ 1023\<close>, whose difference overflows: every cell of
  the result is NaN.
\<close>

theorem rescale_to_range_identity:
  assumes "vs \<noteq> []" and "Min (set vs) = a" and "Max (set vs) = b"
    and "2 powi (- 500) \<le> b - a" and "\<bar>a\<bar> \<le> 2 powi 500" and "\<bar>b\<bar> \<le> 2 powi 500"
    and "\<forall>v\<in>set vs. is_float64 v"
  shows "length (rescale_to_range (Fin a) (Fin b) (map Fin vs)) = length vs \<and>
         (\<forall>i<length vs. \<exists>r.
            rescale_to_range (Fin a) (Fin b) (map Fin vs) ! i = Fin r \<and>
            \<bar>r - vs ! i\<bar> \<le> 2 powi (- 50) * max \<bar>a\<bar> \<bar>b\<bar>)"
proof -
  have len: "length (rescale_to_range (Fin a) (Fin b) (map Fin vs)) = length vs"
    by (simp add: rescale_to_range_def)
  have cell: "\<exists>r. rescale_to_range (Fin a) (Fin b) (map Fin vs) ! i = Fin r \<and>
                  \<bar>r - vs ! i\<bar> \<le> 2 powi (- 50) * max \<bar>a\<bar> \<bar>b\<bar>"
    if i: "i < length vs" for i
  proof -
    have "Min (set vs) \<le> vs ! i" "vs ! i \<le> Max (set vs)"
      using i by simp_all
    then have "a \<le> vs ! i" "vs ! i \<le> b"
      by (simp_all only: assms(2,3))
    then show ?thesis
      using cell_identity [OF _ _ assms(4-6), of "vs ! i"]
      by (simp add: rescale_nth [OF i] assms(2,3))
  qed
  show ?thesis
    using len cell by blast
qed

theorem rescale_to_range_identity_witness:
  "\<exists>r. rescale_to_range (Fin 2) (Fin 8) (map Fin [2, 8, 5]) ! 2 = Fin r \<and>
        \<bar>r - 5\<bar> \<le> 2 powi (- 50) * 8"
proof -
  note f = is_float64_int [of 2, simplified] is_float64_int [of 8, simplified]
    is_float64_int [of 5, simplified]
  have h: "[2, 8, 5 :: rat] \<noteq> []" "Min (set [2, 8, 5 :: rat]) = 2" "Max (set [2, 8, 5 :: rat]) = 8"
    "2 powi (- 500) \<le> (8::rat) - 2" "\<bar>2 :: rat\<bar> \<le> 2 powi 500" "\<bar>8 :: rat\<bar> \<le> 2 powi 500"
    "\<forall>v\<in>set [2, 8, 5]. is_float64 v"
    by (simp_all add: f)
  have "\<forall>i<length [2, 8, 5 :: rat]. \<exists>r.
          rescale_to_range (Fin 2) (Fin 8) (map Fin [2, 8, 5]) ! i = Fin r \<and>
          \<bar>r - [2, 8, 5] ! i\<bar> \<le> 2 powi (- 50) * max \<bar>2\<bar> \<bar>8\<bar>"
    using rescale_to_range_identity [OF h] by (rule conjunct2)
  then have "2 < length [2, 8, 5 :: rat] \<longrightarrow> (\<exists>r.
          rescale_to_range (Fin 2) (Fin 8) (map Fin [2, 8, 5]) ! 2 = Fin r \<and>
          \<bar>r - [2, 8, 5] ! 2\<bar> \<le> 2 powi (- 50) * max \<bar>2\<bar> \<bar>8\<bar>)"
    by (rule spec)
  then show ?thesis
    by simp
qed

theorem rescale_to_range_identity_counterexample:
  "rescale_to_range (Fin (- (2 ^ 1023))) (Fin (2 ^ 1023)) [Fin (- (2 ^ 1023)), Fin (2 ^ 1023)] =
   [NaN, NaN]"
proof -
  note r = round64_overflow [of "2 ^ 1024", simplified]
  show ?thesis
    by (simp add: rescale_to_range_def series_min_def series_max_def fmin_def fmax_def
        fsub_Fin round64_zero inf_of_sign_def r)
qed

section \<open>Integer columns\<close>

text \<open>
  On a column of dtype int64 the product \<open>(b - a) * (x - x.min())\<close> is an int64
  product and wraps around: the column \<open>[0, 2 ^ 40]\<close> with the bounds \<open>0\<close> and
  \<open>2 ^ 40\<close> is rescaled to \<open>[0, 0]\<close>. The properties of rescaling above are
  those of float64 columns.
\<close>

lemma rescale_to_range_int64_wraps:
  "rescale_to_range_int64 0 (2 ^ 40) [0, 2 ^ 40] = [Fin 0, Fin 0]"
proof -
  note r = round64_int [of "2 ^ 40", simplified]
  show ?thesis
    by (simp add: rescale_to_range_int64_def wrap64_def round64_zero r)
qed

section \<open>Properties of grouping\<close>

lemma set_map_filter_id: "set (List.map_filter id ks) = {k. Some k \<in> set ks}"
proof (induction ks)
  case Nil
  show ?case by (simp add: map_filter_simps)
next
  case (Cons x xs)
  show ?case
  proof (cases x)
    case None
    then show ?thesis
      using Cons.IH by (simp add: map_filter_simps)
  next
    case (Some k)
    then show ?thesis
      using Cons.IH by (auto simp: map_filter_simps)
  qed
qed

lemma set_group_keys: "set (group_keys ks) = {k. Some k \<in> set ks}"
  by (simp add: group_keys_def set_map_filter_id)

lemma distinct_group_keys: "distinct (group_keys ks)"
  by (simp add: group_keys_def)

lemma set_group_rows: "set (group_rows ks k) = {i. i < length ks \<and> ks ! i = Some k}"
  by (auto simp: group_rows_def)

lemma in_dataset_country:
  "g \<in> set (dataset_country ds) \<longleftrightarrow>
   (\<exists>k. Some k \<in> set (map fst ds) \<and> g = (k, group_rows (map fst ds) k))"
proof -
  have "set (dataset_country ds) =
        (\<lambda>k. (k, group_rows (map fst ds) k)) ` {k. Some k \<in> set (map fst ds)}"
    by (simp add: dataset_country_def groupby_def set_group_keys)
  then show ?thesis
    by blast
qed

lemma group_rows_member:
  assumes "g \<in> set (dataset_country ds)"
  shows "i \<in> set (snd g) \<longleftrightarrow> i < length ds \<and> fst (ds ! i) = Some (fst g)"
proof -
  obtain k where g: "g = (k, group_rows (map fst ds) k)"
    using assms in_dataset_country by blast
  show ?thesis
    by (auto simp: g set_group_rows)
qed

lemma group_of_row:
  assumes "i < length ds" and "fst (ds ! i) = Some k"
  shows "(k, group_rows (map fst ds) k) \<in> set (dataset_country ds)"
proof -
  have "ds ! i \<in> set ds"
    using assms(1) by simp
  then have "Some k \<in> set (map fst ds)"
    using assms(2) by force
  then show ?thesis
    using in_dataset_country by blast
qed

lemma groups_determined_by_key:
  assumes "g \<in> set (dataset_country ds)" and "h \<in> set (dataset_country ds)"
    and "fst g = fst h"
  shows "g = h"
proof -
  obtain k where g: "g = (k, group_rows (map fst ds) k)"
    using assms(1) in_dataset_country by blast
  obtain k' where h: "h = (k', group_rows (map fst ds) k')"
    using assms(2) in_dataset_country by blast
  show ?thesis
    using assms(3) by (simp add: g h)
qed

text \<open>
  C6 (as the code behaves). For every table, the groups formed on the group-by column
  partition the rows whose group-by cell is not null: every such row belongs to exactly
  one group, two different groups share no row, every row of a group carries the
  group's key, and the rows of all groups together are exactly the rows with a non-null
  group-by cell. A row whose group-by cell is null belongs to no group.
\<close>

theorem dataset_country_partition:
  "(\<forall>i<length ds. fst (ds ! i) \<noteq> None \<longrightarrow>
      (\<exists>!g. g \<in> set (dataset_country ds) \<and> i \<in> set (snd g))) \<and>
   (\<forall>g\<in>set (dataset_country ds). \<forall>h\<in>set (dataset_country ds).
      g \<noteq> h \<longrightarrow> set (snd g) \<inter> set (snd h) = {}) \<and>
   (\<forall>g\<in>set (dataset_country ds). \<forall>i\<in>set (snd g). fst (ds ! i) = Some (fst g)) \<and>
   (\<Union>g\<in>set (dataset_country ds). set (snd g)) = {i. i < length ds \<and> fst (ds ! i) \<noteq> None}"
proof (intro conjI allI impI ballI)
  fix i
  assume i: "i < length ds" and "fst (ds ! i) \<noteq> None"
  then obtain k where k: "fst (ds ! i) = Some k"
    by auto
  let ?g = "(k, group_rows (map fst ds) k)"
  have mem: "?g \<in> set (dataset_country ds)"
    using i k by (rule group_of_row)
  have here: "i \<in> set (snd ?g)"
    using group_rows_member [OF mem, of i] i k by simp
  show "\<exists>!g. g \<in> set (dataset_country ds) \<and> i \<in> set (snd g)"
  proof (rule ex1I [of _ ?g])
    show "?g \<in> set (dataset_country ds) \<and> i \<in> set (snd ?g)"
      using mem here by simp
  next
    fix h
    assume h: "h \<in> set (dataset_country ds) \<and> i \<in> set (snd h)"
    then have "fst (ds ! i) = Some (fst h)"
      using group_rows_member [of h ds i] by simp
    then have "fst h = fst ?g"
      using k by simp
    then show "h = ?g"
      using h mem groups_determined_by_key [of h ds ?g] by simp
  qed
next
  fix g h
  assume g: "g \<in> set (dataset_country ds)" and h: "h \<in> set (dataset_country ds)"
    and ne: "g \<noteq> h"
  have keys: "fst g \<noteq> fst h"
    using ne groups_determined_by_key [OF g h] by blast
  have "i \<notin> set (snd h)" if "i \<in> set (snd g)" for i
  proof -
    have "fst (ds ! i) = Some (fst g)"
      using group_rows_member [OF g, of i] that by simp
    then have "fst (ds ! i) \<noteq> Some (fst h)"
      using keys by simp
    then show ?thesis
      using group_rows_member [OF h, of i] by simp
  qed
  then show "set (snd g) \<inter> set (snd h) = {}"
    by blast
next
  fix g i
  assume "g \<in> set (dataset_country ds)" and "i \<in> set (snd g)"
  then show "fst (ds ! i) = Some (fst g)"
    using group_rows_member [of g ds i] by simp
next
  show "(\<Union>g\<in>set (dataset_country ds). set (snd g)) =
        {i. i < length ds \<and> fst (ds ! i) \<noteq> None}"
  proof (intro set_eqI iffI)
    fix i
    assume "i \<in> (\<Union>g\<in>set (dataset_country ds). set (snd g))"
    then obtain g where "g \<in> set (dataset_country ds)" and "i \<in> set (snd g)"
      by blast
    then show "i \<in> {i. i < length ds \<and> fst (ds ! i) \<noteq> None}"
      using group_rows_member [of g ds i] by simp
  next
    fix i
    assume "i \<in> {i. i < length ds \<and> fst (ds ! i) \<noteq> None}"
    then obtain k where i: "i < length ds" and k: "fst (ds ! i) = Some k"
      by auto
    have mem: "(k, group_rows (map fst ds) k) \<in> set (dataset_country ds)"
      using i k by (rule group_of_row)
    have "i \<in> set (snd (k, group_rows (map fst ds) k))"
      using group_rows_member [OF mem, of i] i k by simp
    then show "i \<in> (\<Union>g\<in>set (dataset_country ds). set (snd g))"
      using mem by blast
  qed
qed

theorem dataset_country_partition_witness:
  "(0::nat) < length [(Some ''UK'', Fin 10), (None, Fin 12), (Some ''DE'', NaN)] \<and>
   fst ([(Some ''UK'', Fin 10), (None, Fin 12), (Some ''DE'', NaN)] ! 0) \<noteq> None \<and>
   (\<exists>!g. g \<in> set (dataset_country [(Some ''UK'', Fin 10), (None, Fin 12), (Some ''DE'', NaN)])
         \<and> 0 \<in> set (snd g)) \<and>
   (''DE'', [2]) \<in> set (dataset_country [(Some ''UK'', Fin 10), (None, Fin 12), (Some ''DE'', NaN)]) \<and>
   (''UK'', [0]) \<in> set (dataset_country [(Some ''UK'', Fin 10), (None, Fin 12), (Some ''DE'', NaN)]) \<and>
   set (snd (''DE'', [2::nat])) \<inter> set (snd (''UK'', [0::nat])) = {}"
proof -
  let ?ds = "[(Some ''UK'', Fin 10), (None, Fin 12), (Some ''DE'', NaN)]"
  have groups: "dataset_country ?ds = [(''DE'', [2]), (''UK'', [0])]"
    by code_simp
  have "\<forall>i<length ?ds. fst (?ds ! i) \<noteq> None \<longrightarrow>
          (\<exists>!g. g \<in> set (dataset_country ?ds) \<and> i \<in> set (snd g))"
    using dataset_country_partition [of ?ds] by (rule conjunct1)
  then have "\<exists>!g. g \<in> set (dataset_country ?ds) \<and> 0 \<in> set (snd g)"
    by simp
  then show ?thesis
    by (simp add: groups)
qed

theorem dataset_country_partition_counterexample:
  "dataset_country [(Some ''UK'', Fin 10), (None, Fin 12)] = [(''UK'', [0])]"
  by code_simp

section \<open>Properties of the summary statistics\<close>

lemma series_count_filter: "series_count x = length (filter notnull x)"
  by (induction x) (simp_all add: series_count_def)













text \<open>
  C8. A group of exactly one row whose cell is null: \<open>get_stats\<close> reports the count
  \<open>0\<close>, not the number of rows \<open>1\<close>, and NaN as minimum, maximum and mean.
\<close>

theorem get_stats_single_null_row:
  "get_stats [NaN] = \<lparr>min_stat = NaN, max_stat = NaN, count_stat = 0, mean_stat = NaN\<rparr>"
  by (simp add: get_stats_def series_min_def series_max_def series_count_def series_mean_def)

text \<open>
  C10. The count of a summary row is the number of non-null cells of the group: null
  cells are not counted, so a further null row leaves the count as it is, and the
  count is the number of rows only for a group without a null cell.
\<close>

theorem get_stats_count_nonnull:
  "count_stat (get_stats g) = length (filter (\<lambda>v. v \<noteq> NaN) g) \<and>
   count_stat (get_stats g) = card {i. i < length g \<and> g ! i \<noteq> NaN} \<and>
   count_stat (get_stats (g @ [NaN])) = count_stat (get_stats g) \<and>
   count_stat (get_stats g) + length (filter (\<lambda>v. v = NaN) g) = length g"
proof -
  have nn: "notnull = (\<lambda>v. v \<noteq> NaN)"
  proof
    fix v show "notnull v = (v \<noteq> NaN)" by (cases v) simp_all
  qed
  have c: "count_stat (get_stats h) = length (filter (\<lambda>v. v \<noteq> NaN) h)" for h
    by (simp add: get_stats_def series_count_filter nn)
  have "length (filter (\<lambda>v. v \<noteq> NaN) g) = card {i. i < length g \<and> g ! i \<noteq> NaN}"
    by (rule length_filter_conv_card)
  moreover have "length (filter (\<lambda>v. v \<noteq> NaN) g) + length (filter (\<lambda>v. v = NaN) g) = length g"
    using sum_length_filter_compl [of "\<lambda>v. v \<noteq> NaN" g] by simp
  ultimately show ?thesis
    by (simp add: c)
qed

end
